theory Spec2Isabelle
  imports
    Main
    "HOL-Library.AList"
    "HOL-Library.Multiset"
    "HOL-Library.Char_ord"
    "HOL-Library.List_Lexorder"
    "HOL-Library.Product_Lexorder"
begin

section \<open>Python strings\<close>

text \<open>
  A Python \<open>str\<close> is modelled as a \<open>string\<close> whose characters stand for the code
  points 0 to 255.  On that range \<open>str.strip\<close> and \<open>str.split()\<close> treat exactly the code
  points 9-13, 28-32, 133 and 160 as whitespace, and \<open>str.lower\<close> adds 32 to the code
  points 65-90 and 192-222 (without 215).
\<close>

definition is_space :: "char \<Rightarrow> bool" where
  "is_space ch \<longleftrightarrow>
     (let n = (of_char ch :: nat)
      in (9 \<le> n \<and> n \<le> 13) \<or> (28 \<le> n \<and> n \<le> 32) \<or> n = 133 \<or> n = 160)"

definition py_strip :: "string \<Rightarrow> string" where
  "py_strip s = rev (dropWhile is_space (rev (dropWhile is_space s)))"

text \<open>\<open>s.split(sep)\<close> for a one-character separator: every occurrence cuts, empty
  pieces are kept, and the result always has at least one element.\<close>

fun split_on_acc :: "char \<Rightarrow> string \<Rightarrow> string \<Rightarrow> string list" where
  "split_on_acc sep cur [] = [cur]"
| "split_on_acc sep cur (ch # s) =
     (if ch = sep then cur # split_on_acc sep [] s
      else split_on_acc sep (cur @ [ch]) s)"

definition py_split_on :: "char \<Rightarrow> string \<Rightarrow> string list" where
  "py_split_on sep s = split_on_acc sep [] s"

text \<open>\<open>s.split()\<close>: cut at runs of whitespace, no empty pieces.\<close>

fun split_ws_acc :: "string \<Rightarrow> string \<Rightarrow> string list" where
  "split_ws_acc cur [] = (if cur = [] then [] else [cur])"
| "split_ws_acc cur (ch # s) =
     (if is_space ch
      then (if cur = [] then split_ws_acc [] s else cur # split_ws_acc [] s)
      else split_ws_acc (cur @ [ch]) s)"

definition py_split_ws :: "string \<Rightarrow> string list" where
  "py_split_ws s = split_ws_acc [] s"

fun py_join :: "string \<Rightarrow> string list \<Rightarrow> string" where
  "py_join sep [] = []"
| "py_join sep [x] = x"
| "py_join sep (x # y # ys) = x @ sep @ py_join sep (y # ys)"

definition lower_char :: "char \<Rightarrow> char" where
  "lower_char ch =
     (let n = (of_char ch :: nat)
      in if (65 \<le> n \<and> n \<le> 90) \<or> (192 \<le> n \<and> n \<le> 222 \<and> n \<noteq> 215)
         then char_of (n + 32) else ch)"

definition py_lower :: "string \<Rightarrow> string" where
  "py_lower s = map lower_char s"

text \<open>The comparisons \<open>'a' <= ch <= 'z'\<close> and \<open>'A' <= ch <= 'Z'\<close> on one character.\<close>

definition is_lower_az :: "char \<Rightarrow> bool" where
  "is_lower_az ch \<longleftrightarrow> 97 \<le> (of_char ch :: nat) \<and> (of_char ch :: nat) \<le> 122"

definition is_upper_AZ :: "char \<Rightarrow> bool" where
  "is_upper_AZ ch \<longleftrightarrow> 65 \<le> (of_char ch :: nat) \<and> (of_char ch :: nat) \<le> 90"

section \<open>Errors and list indexing\<close>

datatype error = KeyError | IndexError | ValueError string | UnicodeEncodeError

text \<open>Python list indexing: a negative index counts from the end, anything outside
  \<open>-len \<le> i < len\<close> raises \<open>IndexError\<close>.\<close>

definition py_index :: "'a list \<Rightarrow> int \<Rightarrow> error + nat" where
  "py_index xs i =
     (if 0 \<le> i \<and> i < int (length xs) then Inr (nat i)
      else if - int (length xs) \<le> i \<and> i < 0 then Inr (nat (int (length xs) + i))
      else Inl IndexError)"

definition py_get :: "'a list \<Rightarrow> int \<Rightarrow> error + 'a" where
  "py_get xs i = (case py_index xs i of Inl e \<Rightarrow> Inl e | Inr j \<Rightarrow> Inr (xs ! j))"

definition py_set :: "'a list \<Rightarrow> int \<Rightarrow> 'a \<Rightarrow> error + 'a list" where
  "py_set xs i v = (case py_index xs i of Inl e \<Rightarrow> Inl e | Inr j \<Rightarrow> Inr (xs[j := v]))"

text \<open>\<open>grid[r][c]\<close> and \<open>grid[r][c] = v\<close> on a list of rows.\<close>

definition grid_get :: "'a list list \<Rightarrow> int \<Rightarrow> int \<Rightarrow> error + 'a" where
  "grid_get g r c = (case py_get g r of Inl e \<Rightarrow> Inl e | Inr row \<Rightarrow> py_get row c)"

definition grid_set :: "'a list list \<Rightarrow> int \<Rightarrow> int \<Rightarrow> 'a \<Rightarrow> error + 'a list list" where
  "grid_set g r c v =
     (case py_index g r of Inl e \<Rightarrow> Inl e
      | Inr i \<Rightarrow> (case py_set (g ! i) c v of Inl e \<Rightarrow> Inl e
                 | Inr row \<Rightarrow> Inr (g[i := row])))"

section \<open>The game state (class KubobleGame)\<close>

type_synonym pos = "int \<times> int"

text \<open>A dict is an association list in insertion order; \<open>AList.update\<close> replaces the value
  of a present key in place and appends an absent one, as a Python dict does.\<close>

type_synonym pdict = "(string \<times> pos) list"

record game =
  grid :: "string list list"
  pieces :: pdict
  targets :: pdict
  width :: int
  height :: int

subsection \<open>\<open>_parse_level\<close>\<close>

text \<open>The tokens of one row (lines 27-42): space separated, else one per character when
  the row has a dot, else the whole row as one token.\<close>

definition row_tokens :: "string \<Rightarrow> string list" where
  "row_tokens row_str_raw =
     (let row_str = py_strip row_str_raw
      in if row_str = [] then []
         else if CHR '' '' \<in> set row_str
              then filter (\<lambda>rt. rt \<noteq> []) (py_split_on (CHR '' '') row_str)
         else if CHR ''.'' \<in> set row_str then map (\<lambda>ch. [ch]) row_str
         else [row_str])"

text \<open>\<open>current_max_width\<close> (lines 25, 45-46).\<close>

definition max_width :: "string list list \<Rightarrow> nat" where
  "max_width rows = fold (\<lambda>toks m. if length toks > m then length toks else m) rows 0"

text \<open>Lines 61-74: the piece and the target a token holds, \<open>(piece_in_cell, target_in_cell)\<close>.\<close>

definition scan_char :: "char \<Rightarrow> string option \<times> string option \<Rightarrow> string option \<times> string option" where
  "scan_char sub_char pt =
     (if is_lower_az sub_char then (fst pt, Some [sub_char])
      else if is_upper_AZ sub_char then (Some [sub_char], snd pt)
      else pt)"

definition cell_contents :: "string \<Rightarrow> string option \<times> string option" where
  "cell_contents char_cell_content =
     (if char_cell_content = ''X'' then (None, None)
      else if char_cell_content = ''.'' then (None, None)
      else if length char_cell_content = 1
           then scan_char (hd char_cell_content) (None, None)
      else fold scan_char char_cell_content (None, None))"

text \<open>Lines 55-77: the two dicts after the cells of a row, and of all rows, have been read.
  The state is \<open>(pieces, targets)\<close>.\<close>

definition place_cell :: "int \<Rightarrow> int \<Rightarrow> string \<Rightarrow> pdict \<times> pdict \<Rightarrow> pdict \<times> pdict" where
  "place_cell r c tok pt =
     (let (piece_in_cell, target_in_cell) = cell_contents tok;
          ts = (case target_in_cell of None \<Rightarrow> snd pt
                | Some t \<Rightarrow> AList.update t (r, c) (snd pt));
          ps = (case piece_in_cell of None \<Rightarrow> fst pt
                | Some p \<Rightarrow> AList.update p (r, c) (fst pt))
      in (ps, ts))"

fun place_row :: "int \<Rightarrow> int \<Rightarrow> string list \<Rightarrow> pdict \<times> pdict \<Rightarrow> pdict \<times> pdict" where
  "place_row r c [] pt = pt"
| "place_row r c (tok # toks) pt = place_row r (c + 1) toks (place_cell r c tok pt)"

fun place_rows :: "nat \<Rightarrow> int \<Rightarrow> string list list \<Rightarrow> pdict \<times> pdict \<Rightarrow> pdict \<times> pdict" where
  "place_rows w r [] pt = pt"
| "place_rows w r (toks # rows) pt =
     place_rows w (r + 1) rows (place_row r 0 (take w toks) pt)"

text \<open>Lines 79-87: the grid of dots with an \<open>X\<close> wherever the token is exactly \<open>X\<close>.\<close>

definition obstacle_grid :: "string list list \<Rightarrow> nat \<Rightarrow> nat \<Rightarrow> string list list" where
  "obstacle_grid rows h w =
     map (\<lambda>r_val. map (\<lambda>c_val.
            if r_val < length rows \<and> c_val < length (rows ! r_val)
               \<and> rows ! r_val ! c_val = ''X''
            then ''X'' else ''.'') [0..<w]) [0..<h]"

text \<open>Lines 90-92: every piece is written into the grid at its position.\<close>

definition write_piece :: "int \<Rightarrow> int \<Rightarrow> string \<times> pos \<Rightarrow> string list list \<Rightarrow> string list list" where
  "write_piece h w entry g =
     (case entry of (piece_char, (r_pos, c_pos)) \<Rightarrow>
        if 0 \<le> r_pos \<and> r_pos < h \<and> 0 \<le> c_pos \<and> c_pos < w
        then g[nat r_pos := (g ! nat r_pos)[nat c_pos := piece_char]]
        else g)"

definition parse_level :: "string \<Rightarrow> game" where
  "parse_level level_string =
     (let raw_rows = py_split_on (CHR '';'') (py_strip level_string);
          h = length raw_rows
      in if h = 0
         then \<lparr>grid = [], pieces = [], targets = [], width = 0, height = 0\<rparr>
         else
           let processed_rows_tokens = map row_tokens raw_rows;
               w = max_width processed_rows_tokens;
               (ps, ts) = place_rows w 0 processed_rows_tokens ([], []);
               g = fold (write_piece (int h) (int w)) ps
                     (obstacle_grid processed_rows_tokens h w)
           in \<lparr>grid = g, pieces = AList.delete ''X'' ps, targets = ts,
               width = int w, height = int h\<rparr>)"

subsection \<open>\<open>is_win\<close>\<close>

definition get_piece_target_pairs :: "game \<Rightarrow> (string \<times> string) list" where
  "get_piece_target_pairs g = map (\<lambda>piece_char. (piece_char, py_lower piece_char)) (map fst (pieces g))"

text \<open>The lookups \<open>self.pieces[piece_char]\<close> are of keys of the dict and cannot fail.\<close>

definition is_win :: "game \<Rightarrow> bool" where
  "is_win g =
     (if pieces g = [] then False
      else list_all (\<lambda>(piece_char, target_char).
             (case map_of (targets g) target_char of None \<Rightarrow> False
              | Some tpos \<Rightarrow> map_of (pieces g) piece_char = Some tpos))
           (get_piece_target_pairs g))"

subsection \<open>\<open>get_possible_moves\<close>\<close>

datatype direction = Up | Down | Left | Right

fun dr :: "direction \<Rightarrow> int" where
  "dr Up = -1" | "dr Down = 1" | "dr Left = 0" | "dr Right = 0"

fun dc :: "direction \<Rightarrow> int" where
  "dc Up = 0" | "dc Down = 0" | "dc Left = -1" | "dc Right = 1"

fun direction_name :: "direction \<Rightarrow> string" where
  "direction_name Up = ''up''"
| "direction_name Down = ''down''"
| "direction_name Left = ''left''"
| "direction_name Right = ''right''"

definition directions :: "direction list" where
  "directions = [Up, Down, Left, Right]"

type_synonym move = "string \<times> pos \<times> string"

definition in_grid :: "game \<Rightarrow> pos \<Rightarrow> bool" where
  "in_grid g p \<longleftrightarrow> 0 \<le> fst p \<and> fst p < height g \<and> 0 \<le> snd p \<and> snd p < width g"

text \<open>The loops of lines 130-133 and 147-150.\<close>

definition blocked_by_other :: "pdict \<Rightarrow> string \<Rightarrow> pos \<Rightarrow> bool" where
  "blocked_by_other ps piece_char cell =
     list_ex (\<lambda>(other_piece, op). other_piece \<noteq> piece_char \<and> op = cell) ps"

text \<open>The \<open>while True\<close> loop of lines 138-155, from the current cell; it returns the
  landing cell.\<close>

function slide :: "game \<Rightarrow> string \<Rightarrow> direction \<Rightarrow> int \<Rightarrow> int \<Rightarrow> error + pos" where
  "slide g piece_char d curr_r curr_c =
     (let next_r = curr_r + dr d; next_c = curr_c + dc d
      in if \<not> in_grid g (next_r, next_c) then Inr (curr_r, curr_c)
         else (case grid_get (grid g) next_r next_c of
                 Inl e \<Rightarrow> Inl e
               | Inr cell \<Rightarrow>
                   if cell = ''X'' then Inr (curr_r, curr_c)
                   else if blocked_by_other (pieces g) piece_char (next_r, next_c)
                        then Inr (curr_r, curr_c)
                   else slide g piece_char d next_r next_c))"
  by pat_completeness auto
termination
  by (relation "measure (\<lambda>(g, p, d, r, c).
        (case d of Up \<Rightarrow> nat (r + 1) | Down \<Rightarrow> nat (height g - r)
         | Left \<Rightarrow> nat (c + 1) | Right \<Rightarrow> nat (width g - c)))")
     (auto simp: in_grid_def split: direction.splits)

declare slide.simps [simp del]

text \<open>Lines 121-157 for one piece and one direction: no move or one move.\<close>

definition moves_in_direction :: "game \<Rightarrow> string \<Rightarrow> pos \<Rightarrow> direction \<Rightarrow> error + move list" where
  "moves_in_direction g piece_char start d =
     (let r = fst start; c = snd start;
          next_r_start = r + dr d; next_c_start = c + dc d
      in if \<not> in_grid g (next_r_start, next_c_start) then Inr []
         else (case grid_get (grid g) next_r_start next_c_start of
                 Inl e \<Rightarrow> Inl e
               | Inr cell \<Rightarrow>
                   if cell = ''X'' then Inr []
                   else if blocked_by_other (pieces g) piece_char (next_r_start, next_c_start)
                        then Inr []
                   else (case slide g piece_char d r c of
                           Inl e \<Rightarrow> Inl e
                         | Inr land \<Rightarrow>
                             if land \<noteq> (r, c)
                             then Inr [(piece_char, land, direction_name d)]
                             else Inr [])))"

text \<open>A \<open>for\<close> loop that appends to a list and stops at the first exception.\<close>

fun collect :: "('a \<Rightarrow> error + 'b list) \<Rightarrow> 'a list \<Rightarrow> error + 'b list" where
  "collect f [] = Inr []"
| "collect f (x # xs) =
     (case f x of Inl e \<Rightarrow> Inl e
      | Inr ys \<Rightarrow> (case collect f xs of Inl e \<Rightarrow> Inl e | Inr zs \<Rightarrow> Inr (ys @ zs)))"

definition get_possible_moves :: "game \<Rightarrow> error + move list" where
  "get_possible_moves g =
     collect (\<lambda>(piece_char, start).
        collect (moves_in_direction g piece_char start) directions) (pieces g)"

subsection \<open>\<open>apply_move\<close>\<close>

definition apply_move :: "game \<Rightarrow> string \<Rightarrow> pos \<Rightarrow> error + game" where
  "apply_move g piece_char new_pos =
     (case map_of (pieces g) piece_char of
        None \<Rightarrow> Inl KeyError
      | Some (old_r, old_c) \<Rightarrow>
          (case grid_set (grid g) old_r old_c ''.'' of
             Inl e \<Rightarrow> Inl e
           | Inr g1 \<Rightarrow>
               (case grid_set g1 (fst new_pos) (snd new_pos) piece_char of
                  Inl e \<Rightarrow> Inl e
                | Inr new_grid \<Rightarrow>
                    Inr \<lparr>grid = new_grid,
                         pieces = AList.update piece_char new_pos (pieces g),
                         targets = targets g,
                         width = width g,
                         height = height g\<rparr>)))"

section \<open>\<open>verify_kuboble_solution\<close>\<close>

text \<open>The loop of lines 184-196 over the fragments of the solution text.  It returns
  \<open>Inl b\<close> where the source returns \<open>b\<close> from inside the loop, and the parsed moves
  otherwise.  \<open>move_idx\<close> counts the fragments, \<open>n\<close> is \<open>len(raw_moves)\<close>.\<close>

fun parse_moves ::
  "game \<Rightarrow> nat \<Rightarrow> nat \<Rightarrow> string list \<Rightarrow> (string \<times> string) list
   \<Rightarrow> bool + (string \<times> string) list" where
  "parse_moves g n move_idx [] parsed_moves = Inr parsed_moves"
| "parse_moves g n move_idx (raw_move_unstripped # rest) parsed_moves =
     (let raw_move = py_strip raw_move_unstripped
      in if raw_move = []
         then (if int move_idx = int n - 1 \<and> parsed_moves = [] then Inl (is_win g)
               else parse_moves g n (move_idx + 1) rest parsed_moves)
         else
           let parts = py_split_ws raw_move
           in if length parts \<noteq> 2 then Inl False
              else
                let piece_char = parts ! 0; direction_name = py_lower (parts ! 1)
                in if direction_name \<notin> set [''up'', ''down'', ''left'', ''right'']
                   then Inl False
                   else parse_moves g n (move_idx + 1) rest
                          (parsed_moves @ [(piece_char, direction_name)]))"

text \<open>Lines 216-222: the first possible move of that piece in that direction whose
  landing cell is not the piece's cell.\<close>

definition find_move :: "game \<Rightarrow> string \<Rightarrow> string \<Rightarrow> move list \<Rightarrow> move option" where
  "find_move g sol_piece_char sol_direction_name possible_moves =
     List.find (\<lambda>(pm_piece, pm_new_pos, pm_direction).
        pm_piece = sol_piece_char \<and> pm_direction = sol_direction_name
        \<and> map_of (pieces g) pm_piece \<noteq> Some pm_new_pos) possible_moves"

subsection \<open>The output of the branch for the level of test 20\<close>

text \<open>
  \<open>print\<close> raises \<open>UnicodeEncodeError\<close> when the encoding of standard output has no code
  for a character of the text.  Standard output is a parameter: \<open>encodes c\<close> says that the
  code point \<open>c\<close> can be written; the ASCII code points always can.  The prints that are
  modelled are those whose text is not ASCII by construction: line 205 prints the token
  the caller gave as the piece, line 235 a literal with the Thai code points of
  \<open>grid_note\<close>, line 258 the rows of the display grid.  The other prints of the branch
  and those of \<open>is_win\<close> write ASCII text, the token line 205 has already written, and the
  names of the pieces and targets of the state, which a parsed level takes from the
  letters A-Z and a-z.
\<close>

definition test_20_level :: string where
  "test_20_level = ''A B . ;X . . ;b a .''"

definition code_points :: "string \<Rightarrow> nat list" where
  "code_points s = map of_char s"

definition printable :: "(nat \<Rightarrow> bool) \<Rightarrow> nat list \<Rightarrow> bool" where
  "printable encodes text = list_all (\<lambda>c. c < 128 \<or> encodes c) text"

definition grid_note :: "nat list" where
  "grid_note = [3648, 3593, 3614, 3634, 3632, 3626, 3656, 3623, 3609, 3607, 3637, 3656,
                3617, 3637, 3594, 3636, 3657, 3609, 3626, 3656, 3623, 3609]"

text \<open>Two standard outputs: one whose encoding is ASCII, one whose encoding has every
  code point (UTF-8).\<close>

definition ascii_stdout :: "nat \<Rightarrow> bool" where
  "ascii_stdout c = False"

definition utf8_stdout :: "nat \<Rightarrow> bool" where
  "utf8_stdout c = True"

text \<open>A \<open>for\<close> loop that updates a value and stops at the first exception.\<close>

fun each :: "('a \<Rightarrow> 'b \<Rightarrow> error + 'b) \<Rightarrow> 'a list \<Rightarrow> 'b \<Rightarrow> error + 'b" where
  "each f [] acc = Inr acc"
| "each f (x # xs) acc = (case f x acc of Inl e \<Rightarrow> Inl e | Inr acc' \<Rightarrow> each f xs acc')"

text \<open>Lines 242-255: the display grid, with its list accesses.  Lines 237-240 compute
  minima and maxima that are never used and cannot raise.\<close>

definition show_obstacle :: "game \<Rightarrow> pos \<Rightarrow> string list list \<Rightarrow> error + string list list" where
  "show_obstacle g cell temp =
     (case grid_get (grid g) (fst cell) (snd cell) of
        Inl e \<Rightarrow> Inl e
      | Inr v \<Rightarrow> if v = ''X'' then grid_set temp (fst cell) (snd cell) ''X'' else Inr temp)"

definition show_piece :: "string \<times> pos \<Rightarrow> string list list \<Rightarrow> error + string list list" where
  "show_piece entry temp =
     (case entry of (p_char, p) \<Rightarrow> grid_set temp (fst p) (snd p) p_char)"

definition show_target :: "string \<times> pos \<Rightarrow> string list list \<Rightarrow> error + string list list" where
  "show_target entry temp =
     (case entry of (t_char, p) \<Rightarrow>
        (case grid_get temp (fst p) (snd p) of
           Inl e \<Rightarrow> Inl e
         | Inr v \<Rightarrow> if v = ''.'' then grid_set temp (fst p) (snd p) t_char else Inr temp))"

definition temp_display_grid :: "game \<Rightarrow> error + string list list" where
  "temp_display_grid g =
     (let cells = concat (map (\<lambda>r_idx. map (\<lambda>c_idx. (int r_idx, int c_idx))
                    [0..<nat (width g)]) [0..<nat (height g)])
      in case each (show_obstacle g) cells
                (replicate (nat (height g)) (replicate (nat (width g)) ''.'')) of
           Inl e \<Rightarrow> Inl e
         | Inr t1 \<Rightarrow>
             (case each show_piece (pieces g) t1 of
                Inl e \<Rightarrow> Inl e
              | Inr t2 \<Rightarrow> each show_target (targets g) t2))"

text \<open>Lines 233-258, after a move has been applied.\<close>

definition debug_after_move :: "(nat \<Rightarrow> bool) \<Rightarrow> game \<Rightarrow> error + unit" where
  "debug_after_move encodes g =
     (if \<not> printable encodes grid_note then Inl UnicodeEncodeError
      else (case temp_display_grid g of
              Inl e \<Rightarrow> Inl e
            | Inr rows \<Rightarrow>
                if list_all (\<lambda>row. printable encodes (code_points (py_join '' '' row))) rows
                then Inr () else Inl UnicodeEncodeError))"

subsection \<open>The replay loop\<close>

text \<open>Lines 200-262.  \<open>is_test_20_level\<close> is the comparison of line 202.\<close>

fun replay ::
  "(nat \<Rightarrow> bool) \<Rightarrow> bool \<Rightarrow> game \<Rightarrow> (string \<times> string) list \<Rightarrow> error + bool" where
  "replay encodes is_test_20_level current_game_state [] = Inr (is_win current_game_state)"
| "replay encodes is_test_20_level current_game_state
     ((sol_piece_char, sol_direction_name) # rest) =
     (if is_test_20_level \<and> \<not> printable encodes (code_points sol_piece_char)
      then Inl UnicodeEncodeError
      else if sol_piece_char \<notin> fst ` set (pieces current_game_state) then Inr False
      else (case get_possible_moves current_game_state of
              Inl e \<Rightarrow> Inl e
            | Inr possible_moves \<Rightarrow>
                (case find_move current_game_state sol_piece_char sol_direction_name
                        possible_moves of
                   None \<Rightarrow> Inr False
                 | Some (pm_piece, pm_new_pos, pm_direction) \<Rightarrow>
                     (case apply_move current_game_state pm_piece pm_new_pos of
                        Inl e \<Rightarrow> Inl e
                      | Inr next_state \<Rightarrow>
                          (case (if is_test_20_level then debug_after_move encodes next_state
                                 else Inr ()) of
                             Inl e \<Rightarrow> Inl e
                           | Inr u \<Rightarrow> replay encodes is_test_20_level next_state rest)))))"

definition verify_kuboble_solution :: "(nat \<Rightarrow> bool) \<Rightarrow> string \<Rightarrow> string \<Rightarrow> error + bool" where
  "verify_kuboble_solution encodes level_string solution_string =
     (let game = parse_level level_string
      in if solution_string = [] \<or> py_strip solution_string = [] then Inr (is_win game)
         else
           let raw_moves = py_split_on (CHR '';'') solution_string
           in (case parse_moves game (length raw_moves) 0 raw_moves [] of
                 Inl b \<Rightarrow> Inr b
               | Inr parsed_moves \<Rightarrow>
                   if parsed_moves = [] \<and> py_strip solution_string \<noteq> []
                   then Inr (is_win game)
                   else replay encodes (level_string = test_20_level) game parsed_moves))"

section \<open>The generator\<close>

subsection \<open>\<open>_coords_to_level_string\<close>\<close>

text \<open>Lines 18-20, 22-31 and 33-36.  A cell outside the grid is skipped; inside it the
  index is in range.  The pieces loop also deletes from \<open>targets_pos\<close>.\<close>

definition inside :: "int \<Rightarrow> int \<Rightarrow> pos \<Rightarrow> bool" where
  "inside w h p \<longleftrightarrow> 0 \<le> fst p \<and> fst p < h \<and> 0 \<le> snd p \<and> snd p < w"

definition put_cell :: "string list list \<Rightarrow> pos \<Rightarrow> string \<Rightarrow> string list list" where
  "put_cell g p v = g[nat (fst p) := (g ! nat (fst p))[nat (snd p) := v]]"

definition put_obstacle :: "int \<Rightarrow> int \<Rightarrow> pos \<Rightarrow> string list list \<Rightarrow> string list list" where
  "put_obstacle w h p g = (if inside w h p then put_cell g p ''X'' else g)"

definition put_piece ::
  "int \<Rightarrow> int \<Rightarrow> string \<times> pos \<Rightarrow> string list list \<times> pdict \<Rightarrow> string list list \<times> pdict" where
  "put_piece w h entry st =
     (case entry of (piece_char, p) \<Rightarrow>
        if inside w h p
        then (let target_char = py_lower piece_char
              in if map_of (snd st) target_char = Some p
                 then (put_cell (fst st) p (piece_char @ target_char),
                       AList.delete target_char (snd st))
                 else (put_cell (fst st) p piece_char, snd st))
        else st)"

definition put_target :: "int \<Rightarrow> int \<Rightarrow> string \<times> pos \<Rightarrow> string list list \<Rightarrow> string list list" where
  "put_target w h entry g =
     (case entry of (target_char, p) \<Rightarrow>
        if inside w h p \<and> g ! nat (fst p) ! nat (snd p) = ''.''
        then put_cell g p target_char else g)"

definition coords_to_level_string ::
  "int \<Rightarrow> int \<Rightarrow> pdict \<Rightarrow> pdict \<Rightarrow> pos list \<Rightarrow> string" where
  "coords_to_level_string w h pieces_pos targets_pos obstacles_pos =
     (let g0 = replicate (nat h) (replicate (nat w) ''.'');
          g1 = fold (put_obstacle w h) obstacles_pos g0;
          (g2, targets_left) = fold (put_piece w h) pieces_pos (g1, targets_pos);
          g3 = fold (put_target w h) targets_left g2
      in py_join '';'' (map (py_join '' '') g3))"

subsection \<open>\<open>_is_solvable_bfs\<close>\<close>

text \<open>\<open>tuple(sorted(game.pieces.items()))\<close>, the key of the visited set.\<close>

definition pieces_tuple :: "game \<Rightarrow> (string \<times> pos) list" where
  "pieces_tuple g = sort (pieces g)"

type_synonym entry = "game \<times> string list \<times> int"

text \<open>The \<open>for\<close> loop of lines 66-78 over the possible moves of the popped state: it
  returns \<open>Inl new_path\<close> where the source returns from inside the loop, and the queue and
  the visited set otherwise.\<close>

fun expand ::
  "game \<Rightarrow> string list \<Rightarrow> int \<Rightarrow> move list \<Rightarrow> entry list \<times> (string \<times> pos) list set
   \<Rightarrow> error + (string list + entry list \<times> (string \<times> pos) list set)" where
  "expand current_game current_path depth [] qv = Inr (Inr qv)"
| "expand current_game current_path depth ((piece_char, new_pos, dir_name) # rest) qv =
     (case apply_move current_game piece_char new_pos of
        Inl e \<Rightarrow> Inl e
      | Inr next_game_state \<Rightarrow>
          (let move_str = piece_char @ '' '' @ dir_name;
               new_path = current_path @ [move_str]
           in if is_win next_game_state then Inr (Inl new_path)
              else if pieces_tuple next_game_state \<notin> snd qv
                   then expand current_game current_path depth rest
                          (fst qv @ [(next_game_state, new_path, depth + 1)],
                           insert (pieces_tuple next_game_state) (snd qv))
                   else expand current_game current_path depth rest qv))"

lemma expand_appends:
  "expand g path depth ms (q, v) = Inr (Inr (q', v')) \<Longrightarrow>
     \<exists>new. q' = q @ new \<and> (\<forall>e \<in> set new. snd (snd e) = depth + 1)"
proof (induction ms arbitrary: q v)
  case Nil
  then show ?case by simp
next
  case (Cons m ms)
  obtain p np dn where m: "m = (p, np, dn)" by (cases m)
  show ?case
  proof (cases "apply_move g p np")
    case (Inl e)
    with Cons.prems m show ?thesis by simp
  next
    case (Inr s)
    show ?thesis
    proof (cases "is_win s")
      case True
      with Cons.prems m Inr show ?thesis by simp
    next
      case nw: False
      show ?thesis
      proof (cases "pieces_tuple s \<in> v")
        case True
        with Cons.prems m Inr nw have "expand g path depth ms (q, v) = Inr (Inr (q', v'))"
          by simp
        then show ?thesis by (rule Cons.IH)
      next
        case False
        with Cons.prems m Inr nw
        have "expand g path depth ms (q @ [(s, path @ [p @ '' '' @ dn], depth + 1)],
                insert (pieces_tuple s) v) = Inr (Inr (q', v'))"
          by simp
        from Cons.IH [OF this] obtain new where
          "q' = (q @ [(s, path @ [p @ '' '' @ dn], depth + 1)]) @ new"
          "\<forall>e \<in> set new. snd (snd e) = depth + 1" by blast
        then have "q' = q @ ((s, path @ [p @ '' '' @ dn], depth + 1) # new)
          \<and> (\<forall>e \<in> set ((s, path @ [p @ '' '' @ dn], depth + 1) # new). snd (snd e) = depth + 1)"
          by simp
        then show ?thesis by blast
      qed
    qed
  qed
qed

text \<open>The \<open>while queue\<close> loop of lines 59-79.  It ends because a popped entry is replaced
  by entries one level deeper, and no entry at \<open>max_depth\<close> is expanded.\<close>

definition budget :: "int \<Rightarrow> entry list \<Rightarrow> nat multiset" where
  "budget max_depth q = mset (map (\<lambda>e. nat (max_depth - snd (snd e))) q)"

function bfs_loop ::
  "int \<Rightarrow> entry list \<Rightarrow> (string \<times> pos) list set \<Rightarrow> error + string list option" where
  "bfs_loop max_depth [] visited_states = Inr None"
| "bfs_loop max_depth ((current_game, current_path, depth) # queue) visited_states =
     (if depth \<ge> max_depth then bfs_loop max_depth queue visited_states
      else (case get_possible_moves current_game of
              Inl e \<Rightarrow> Inl e
            | Inr possible_moves \<Rightarrow>
                (case expand current_game current_path depth possible_moves
                        (queue, visited_states) of
                   Inl e \<Rightarrow> Inl e
                 | Inr (Inl new_path) \<Rightarrow> Inr (Some new_path)
                 | Inr (Inr (queue', visited')) \<Rightarrow> bfs_loop max_depth queue' visited')))"
  by pat_completeness auto
termination
proof (relation "inv_image (mult {(a, b). a < b}) (\<lambda>(md, q, v). budget md q)")
  show "wf (inv_image (mult {(a::nat, b). a < b}) (\<lambda>(md, q, v). budget md q))"
    by (intro wf_inv_image wf_mult) (simp add: wf)
next
  fix max_depth :: int and current_game current_path depth queue
    and visited_states :: "(string \<times> pos) list set"
  have "(budget max_depth queue,
         budget max_depth queue + {#nat (max_depth - depth)#}) \<in> mult {(a, b). a < b}"
    using one_step_implies_mult [of "{#nat (max_depth - depth)#}" "{#}" "{(a, b). a < b}"
            "budget max_depth queue"]
    by simp
  then show "((max_depth, queue, visited_states),
              (max_depth, (current_game, current_path, depth) # queue, visited_states))
             \<in> inv_image (mult {(a, b). a < b}) (\<lambda>(md, q, v). budget md q)"
    by (simp add: budget_def)
next
  fix max_depth :: int and current_game current_path depth queue
    and visited_states :: "(string \<times> pos) list set"
    and possible_moves res res' queue' visited'
  assume small: "\<not> max_depth \<le> depth"
    and "expand current_game current_path depth possible_moves (queue, visited_states) = Inr res"
    and "res = Inr res'" and "(queue', visited') = res'"
  then have "expand current_game current_path depth possible_moves (queue, visited_states)
               = Inr (Inr (queue', visited'))"
    by simp
  from expand_appends [OF this] obtain new where
    q': "queue' = queue @ new" and deep: "\<forall>e \<in> set new. snd (snd e) = depth + 1"
    by blast
  have "(budget max_depth queue + budget max_depth new,
         budget max_depth queue + {#nat (max_depth - depth)#}) \<in> mult {(a, b). a < b}"
  proof (rule one_step_implies_mult)
    show "{#nat (max_depth - depth)#} \<noteq> {#}" by simp
    show "\<forall>k \<in> set_mset (budget max_depth new).
            \<exists>j \<in> set_mset {#nat (max_depth - depth)#}. (k, j) \<in> {(a, b). a < b}"
      using deep small by (auto simp: budget_def)
  qed
  then show "((max_depth, queue', visited'),
              (max_depth, (current_game, current_path, depth) # queue, visited_states))
             \<in> inv_image (mult {(a, b). a < b}) (\<lambda>(md, q, v). budget md q)"
    by (simp add: budget_def q')
qed

declare bfs_loop.simps [simp del]

text \<open>The path found, before it is joined; \<open>Some []\<close> where the source returns the empty
  string at once.\<close>

definition bfs_path :: "game \<Rightarrow> int \<Rightarrow> error + string list option" where
  "bfs_path game_instance max_depth =
     (if is_win game_instance then Inr (Some [])
      else bfs_loop max_depth [(game_instance, [], 0)] {pieces_tuple game_instance})"

definition is_solvable_bfs :: "game \<Rightarrow> int \<Rightarrow> error + string option" where
  "is_solvable_bfs game_instance max_depth =
     (case bfs_path game_instance max_depth of
        Inl e \<Rightarrow> Inl e
      | Inr None \<Rightarrow> Inr None
      | Inr (Some path) \<Rightarrow> Inr (Some (py_join '';'' path)))"

subsection \<open>\<open>generate_kuboble_level\<close>\<close>

text \<open>\<open>random.shuffle\<close> is a parameter: \<open>shuffle attempt coords\<close> is the order the
  coordinates are in after the shuffle of that attempt.  \<open>pop()\<close> takes the last element.\<close>

definition all_coords :: "int \<Rightarrow> int \<Rightarrow> pos list" where
  "all_coords w h = concat (map (\<lambda>r. map (\<lambda>c. (int r, int c)) [0..<nat w]) [0..<nat h])"

fun place_pieces :: "nat \<Rightarrow> nat \<Rightarrow> pos list \<Rightarrow> pdict \<times> pdict \<Rightarrow> pos list \<times> pdict \<times> pdict" where
  "place_pieces i 0 coords pt = (coords, pt)"
| "place_pieces i (Suc n) coords pt =
     (if length coords < 2 then (coords, pt)
      else
        let piece_coord = last coords; coords1 = butlast coords;
            target_coord = last coords1; coords2 = butlast coords1;
            piece_char = [char_of (65 + i)];
            target_char = py_lower piece_char
        in place_pieces (i + 1) n coords2
             (AList.update piece_char piece_coord (fst pt),
              AList.update target_char target_coord (snd pt)))"

fun place_obstacles :: "nat \<Rightarrow> pos list \<Rightarrow> pos list \<Rightarrow> pos list" where
  "place_obstacles 0 coords obstacles_pos = obstacles_pos"
| "place_obstacles (Suc n) coords obstacles_pos =
     (if coords = [] then obstacles_pos
      else place_obstacles n (butlast coords) (obstacles_pos @ [last coords]))"

text \<open>One pass of the loop of lines 116-175: \<open>Inr None\<close> is \<open>continue\<close>.\<close>

definition attempt_level ::
  "pos list \<Rightarrow> int \<Rightarrow> int \<Rightarrow> int \<Rightarrow> int \<Rightarrow> int \<Rightarrow> bool \<Rightarrow> error + (string \<times> string) option" where
  "attempt_level shuffled w h num_pieces num_obstacles max_solver_depth require_non_trivial_solution =
     (let (coords, pieces_pos, targets_pos) = place_pieces 0 (nat num_pieces) shuffled ([], [])
      in if int (length pieces_pos) \<noteq> num_pieces then Inr None
         else
           let obstacles_pos = place_obstacles (nat num_obstacles) coords [];
               level_string = coords_to_level_string w h pieces_pos targets_pos obstacles_pos;
               game = parse_level level_string
           in (case is_solvable_bfs game 0 of
                 Inl e \<Rightarrow> Inl e
               | Inr current_solution \<Rightarrow>
                   if require_non_trivial_solution \<and> current_solution = Some []
                   then Inr None
                   else (case is_solvable_bfs game max_solver_depth of
                           Inl e \<Rightarrow> Inl e
                         | Inr None \<Rightarrow> Inr None
                         | Inr (Some solution) \<Rightarrow> Inr (Some (level_string, solution)))))"

fun attempts ::
  "(nat \<Rightarrow> pos list \<Rightarrow> pos list) \<Rightarrow> nat \<Rightarrow> nat \<Rightarrow> int \<Rightarrow> int \<Rightarrow> int \<Rightarrow> int \<Rightarrow> int \<Rightarrow> bool
   \<Rightarrow> error + (string \<times> string) option" where
  "attempts shuffle attempt 0 w h np no depth nontrivial = Inr None"
| "attempts shuffle attempt (Suc n) w h np no depth nontrivial =
     (case attempt_level (shuffle attempt (all_coords w h)) w h np no depth nontrivial of
        Inl e \<Rightarrow> Inl e
      | Inr (Some res) \<Rightarrow> Inr (Some res)
      | Inr None \<Rightarrow> attempts shuffle (attempt + 1) n w h np no depth nontrivial)"

definition generate_kuboble_level ::
  "(nat \<Rightarrow> pos list \<Rightarrow> pos list) \<Rightarrow> int \<Rightarrow> int \<Rightarrow> int \<Rightarrow> int \<Rightarrow> int \<Rightarrow> int \<Rightarrow> bool
   \<Rightarrow> error + (string \<times> string) option" where
  "generate_kuboble_level shuffle w h num_pieces num_obstacles max_generation_attempts
       max_solver_depth require_non_trivial_solution =
     (if num_pieces = 0 then Inr (Some (coords_to_level_string w h [] [] [], []))
      else if num_pieces > 26
           then Inl (ValueError ''Number of pieces cannot exceed 26 (A-Z).'')
      else if num_pieces * 2 + num_obstacles > w * h
           then Inl (ValueError
                  ''Not enough cells for the requested pieces, targets, and obstacles.'')
      else attempts shuffle 0 (nat max_generation_attempts) w h num_pieces num_obstacles
             max_solver_depth require_non_trivial_solution)"

section \<open>Facts about the string functions\<close>

lemma split_on_acc_chars:
  "f \<in> set (split_on_acc sep cur s) \<Longrightarrow> set f \<subseteq> set cur \<union> set s"
  by (induction s arbitrary: cur) (fastforce split: if_splits)+

lemma split_on_acc_no_sep:
  "f \<in> set (split_on_acc sep cur s) \<Longrightarrow> sep \<notin> set cur \<Longrightarrow> sep \<notin> set f"
  by (induction s arbitrary: cur) (fastforce split: if_splits)+

lemma py_split_on_no_sep: "f \<in> set (py_split_on sep s) \<Longrightarrow> sep \<notin> set f"
  using split_on_acc_no_sep [of f sep "[]" s] by (simp add: py_split_on_def)

lemma py_split_on_chars: "f \<in> set (py_split_on sep s) \<Longrightarrow> set f \<subseteq> set s"
  using split_on_acc_chars [of f sep "[]" s] by (simp add: py_split_on_def)

lemma split_on_acc_nonempty: "split_on_acc sep cur s \<noteq> []"
  by (induction s arbitrary: cur) auto

lemma py_split_on_nonempty: "py_split_on sep s \<noteq> []"
  by (simp add: py_split_on_def split_on_acc_nonempty)

lemma py_strip_blank:
  assumes "\<forall>ch \<in> set s. is_space ch"
  shows "py_strip s = []"
proof -
  from assms have blank: "dropWhile is_space s = []" by simp
  show ?thesis unfolding py_strip_def blank by simp
qed

lemma parse_moves_blank:
  "\<forall>f \<in> set frags. py_strip f = [] \<Longrightarrow> frags \<noteq> [] \<Longrightarrow> move_idx + length frags = n \<Longrightarrow>
     parse_moves g n move_idx frags [] = Inl (is_win g)"
proof (induction frags arbitrary: move_idx)
  case Nil
  then show ?case by simp
next
  case (Cons f rest)
  show ?case
  proof (cases "rest = []")
    case True
    with Cons.prems show ?thesis by auto
  next
    case False
    with Cons.prems have "int move_idx \<noteq> int n - 1" by (cases rest) auto
    moreover from Cons.prems False
    have "parse_moves g n (move_idx + 1) rest [] = Inl (is_win g)"
      by (intro Cons.IH) auto
    ultimately show ?thesis using Cons.prems by simp
  qed
qed

lemma semicolon_not_space: "\<not> is_space (CHR '';'')"
  by (simp add: is_space_def)

lemma verify_blank:
  assumes "\<forall>ch \<in> set solution. ch = CHR '';'' \<or> is_space ch"
  shows "verify_kuboble_solution encodes level solution = Inr (is_win (parse_level level))"
proof (cases "solution = [] \<or> py_strip solution = []")
  case True
  then show ?thesis by (auto simp: verify_kuboble_solution_def)
next
  case False
  let ?frags = "py_split_on (CHR '';'') solution"
  have blank: "\<forall>f \<in> set ?frags. py_strip f = []"
  proof
    fix f assume f: "f \<in> set ?frags"
    have "\<forall>ch \<in> set f. is_space ch"
    proof
      fix ch assume "ch \<in> set f"
      with f py_split_on_chars [OF f] assms have "ch = CHR '';'' \<or> is_space ch" by blast
      moreover have "ch \<noteq> CHR '';''" using py_split_on_no_sep [OF f] \<open>ch \<in> set f\<close> by blast
      ultimately show "is_space ch" by simp
    qed
    then show "py_strip f = []" by (rule py_strip_blank)
  qed
  have "parse_moves (parse_level level) (length ?frags) 0 ?frags [] = Inl (is_win (parse_level level))"
    using blank by (intro parse_moves_blank) (simp_all add: py_split_on_nonempty)
  then show ?thesis using False by (simp add: verify_kuboble_solution_def Let_def)
qed

section \<open>Blank solutions (C5)\<close>

lemma is_win_no_pieces: "pieces g = [] \<Longrightarrow> \<not> is_win g"
  by (simp add: is_win_def)

text \<open>A state is not won when one of its pieces is not on its own target: the target is
  missing, or it is on another cell (the cell of another piece, for instance).\<close>

lemma is_win_off_target:
  assumes "piece_char \<in> fst ` set (pieces g)"
    and "map_of (targets g) (py_lower piece_char) \<noteq> map_of (pieces g) piece_char"
  shows "\<not> is_win g"
proof
  assume "is_win g"
  then have all: "list_all (\<lambda>(piece_char, target_char).
             (case map_of (targets g) target_char of None \<Rightarrow> False
              | Some tpos \<Rightarrow> map_of (pieces g) piece_char = Some tpos))
           (get_piece_target_pairs g)"
    by (simp add: is_win_def split: if_splits)
  from assms(1) have "(piece_char, py_lower piece_char) \<in> set (get_piece_target_pairs g)"
    by (auto simp: get_piece_target_pairs_def)
  with all have "case map_of (targets g) (py_lower piece_char) of None \<Rightarrow> False
              | Some tpos \<Rightarrow> map_of (pieces g) piece_char = Some tpos"
    unfolding list_all_iff by blast
  with assms(2) show False by (simp split: option.splits)
qed

text \<open>
  C5.  A solution text that is empty or made only of whitespace and \<open>;\<close> verifies exactly
  when the parsed level is won, whatever standard output is.  A state without pieces is
  never won, so such a solution fails on a level without pieces.  A state in which a piece
  is not on its own target is not won, so such a solution fails on every level in which
  some piece stands elsewhere than on its own target, on another piece's target for
  instance: in the level \<open>Ab Ba\<close> piece A stands on the target b and piece B on the
  target a, and the empty solution fails on it, as it does on the level \<open>A B ; b a\<close> of
  the scenario.
\<close>

theorem blank_solution_verifies_iff_won:
  "((\<forall>ch \<in> set solution. ch = CHR '';'' \<or> is_space ch) \<longrightarrow>
      verify_kuboble_solution encodes level solution = Inr (is_win (parse_level level)))
   \<and> (pieces g = [] \<longrightarrow> \<not> is_win g)
   \<and> ((\<forall>ch \<in> set solution. ch = CHR '';'' \<or> is_space ch) \<and> pieces (parse_level level) = []
        \<longrightarrow> verify_kuboble_solution encodes level solution = Inr False)
   \<and> verify_kuboble_solution encodes ''A B ; b a'' [] = Inr False
   \<and> (piece_char \<in> fst ` set (pieces g)
        \<and> map_of (targets g) (py_lower piece_char) \<noteq> map_of (pieces g) piece_char
        \<longrightarrow> \<not> is_win g)
   \<and> ((\<forall>ch \<in> set solution. ch = CHR '';'' \<or> is_space ch)
        \<and> piece_char \<in> fst ` set (pieces (parse_level level))
        \<and> map_of (targets (parse_level level)) (py_lower piece_char)
            \<noteq> map_of (pieces (parse_level level)) piece_char
        \<longrightarrow> verify_kuboble_solution encodes level solution = Inr False)
   \<and> pieces (parse_level ''Ab Ba'') = [(''A'', (0, 0)), (''B'', (0, 1))]
   \<and> targets (parse_level ''Ab Ba'') = [(''b'', (0, 0)), (''a'', (0, 1))]
   \<and> verify_kuboble_solution encodes ''Ab Ba'' [] = Inr False"
proof -
  have one: "verify_kuboble_solution encodes ''A B ; b a'' [] = Inr False"
    by code_simp
  have two: "verify_kuboble_solution encodes ''Ab Ba'' [] = Inr False"
    by code_simp
  have ps: "pieces (parse_level ''Ab Ba'') = [(''A'', (0, 0)), (''B'', (0, 1))]"
    by code_simp
  have ts: "targets (parse_level ''Ab Ba'') = [(''b'', (0, 0)), (''a'', (0, 1))]"
    by code_simp
  have blank: "(\<forall>ch \<in> set solution. ch = CHR '';'' \<or> is_space ch) \<longrightarrow>
      verify_kuboble_solution encodes level solution = Inr (is_win (parse_level level))"
    by (simp add: verify_blank)
  have none: "pieces h = [] \<longrightarrow> \<not> is_win h" for h
    by (simp add: is_win_no_pieces)
  have off: "piece_char \<in> fst ` set (pieces h)
        \<and> map_of (targets h) (py_lower piece_char) \<noteq> map_of (pieces h) piece_char
        \<longrightarrow> \<not> is_win h" for h
    using is_win_off_target [of piece_char h] by blast
  have blank_none: "(\<forall>ch \<in> set solution. ch = CHR '';'' \<or> is_space ch)
        \<and> pieces (parse_level level) = []
        \<longrightarrow> verify_kuboble_solution encodes level solution = Inr False"
    using blank none [of "parse_level level"] by simp
  have blank_off: "(\<forall>ch \<in> set solution. ch = CHR '';'' \<or> is_space ch)
        \<and> piece_char \<in> fst ` set (pieces (parse_level level))
        \<and> map_of (targets (parse_level level)) (py_lower piece_char)
            \<noteq> map_of (pieces (parse_level level)) piece_char
        \<longrightarrow> verify_kuboble_solution encodes level solution = Inr False"
    using blank off [of "parse_level level"] by simp
  show ?thesis
    using blank none [of g] blank_none one off [of g] blank_off ps ts two by (intro conjI)
qed

theorem blank_solution_verifies_iff_won_witness:
  "verify_kuboble_solution ascii_stdout ''Aa'' '' ; ;'' = Inr True
   \<and> pieces (parse_level ''. .'') = []
   \<and> \<not> is_win (parse_level ''. .'')
   \<and> verify_kuboble_solution ascii_stdout ''. .'' '' ; ;'' = Inr False
   \<and> ''A'' \<in> fst ` set (pieces (parse_level ''Ab Ba''))
   \<and> map_of (targets (parse_level ''Ab Ba'')) (py_lower ''A'') = Some (0, 1)
   \<and> map_of (pieces (parse_level ''Ab Ba'')) ''A'' = Some (0, 0)
   \<and> map_of (targets (parse_level ''Ab Ba'')) (py_lower ''B'') = Some (0, 0)
   \<and> map_of (pieces (parse_level ''Ab Ba'')) ''B'' = Some (0, 1)
   \<and> \<not> is_win (parse_level ''Ab Ba'')
   \<and> verify_kuboble_solution ascii_stdout ''Ab Ba'' '' ; ;'' = Inr False"
proof -
  have blank: "\<forall>ch \<in> set '' ; ;''. ch = CHR '';'' \<or> is_space ch"
    by (simp add: is_space_def)
  have won: "is_win (parse_level ''Aa'')"
    by code_simp
  have none: "pieces (parse_level ''. .'') = []"
    by code_simp
  have a: "''A'' \<in> fst ` set (pieces (parse_level ''Ab Ba''))"
    by code_simp
  have ta: "map_of (targets (parse_level ''Ab Ba'')) (py_lower ''A'') = Some (0, 1)"
    by code_simp
  have pa: "map_of (pieces (parse_level ''Ab Ba'')) ''A'' = Some (0, 0)"
    by code_simp
  have tb: "map_of (targets (parse_level ''Ab Ba'')) (py_lower ''B'') = Some (0, 0)"
    by code_simp
  have pb: "map_of (pieces (parse_level ''Ab Ba'')) ''B'' = Some (0, 1)"
    by code_simp
  from ta pa have ne: "map_of (targets (parse_level ''Ab Ba'')) (py_lower ''A'')
        \<noteq> map_of (pieces (parse_level ''Ab Ba'')) ''A''"
    by simp
  note t1 = blank_solution_verifies_iff_won [where solution = "'' ; ;''" and level = "''Aa''"
        and g = "parse_level ''. .''" and encodes = ascii_stdout and piece_char = "''A''"]
  note t2 = blank_solution_verifies_iff_won [where solution = "'' ; ;''" and level = "''. .''"
        and g = "parse_level ''. .''" and encodes = ascii_stdout and piece_char = "''A''"]
  note t3 = blank_solution_verifies_iff_won [where solution = "'' ; ;''" and level = "''Ab Ba''"
        and g = "parse_level ''Ab Ba''" and encodes = ascii_stdout and piece_char = "''A''"]
  have w1: "verify_kuboble_solution ascii_stdout ''Aa'' '' ; ;'' = Inr True"
    using t1 blank won by simp
  have w2: "\<not> is_win (parse_level ''. .'')"
    using t2 none by blast
  have w3: "verify_kuboble_solution ascii_stdout ''. .'' '' ; ;'' = Inr False"
    using t2 blank none by blast
  have w4: "\<not> is_win (parse_level ''Ab Ba'')"
    using t3 a ne by blast
  have w5: "verify_kuboble_solution ascii_stdout ''Ab Ba'' '' ; ;'' = Inr False"
    using t3 blank a ne by blast
  show ?thesis
    using w1 none w2 w3 a ta pa tb pb w4 w5 by (intro conjI)
qed

section \<open>The generator's special case and its configuration errors (C1, C7)\<close>

text \<open>A shuffle that leaves the coordinates as they are.\<close>

definition identity_shuffle :: "nat \<Rightarrow> pos list \<Rightarrow> pos list" where
  "identity_shuffle attempt coords = coords"

text \<open>
  C1.  Every pair the generator returns should verify.  For \<open>num_pieces = 0\<close> it does not:
  on a grid of width 2 and height 1 the generator returns the level \<open>. .\<close> with the empty
  solution, and the verifier answers false for that pair, whatever standard output is,
  because a state without pieces is not won.
\<close>

theorem generated_empty_level_fails_verification:
  "generate_kuboble_level identity_shuffle 2 1 0 0 100 25 True = Inr (Some (''. .'', []))
   \<and> verify_kuboble_solution encodes ''. .'' [] = Inr False"
  by code_simp

text \<open>
  C7 as stated fails for \<open>num_pieces = 0\<close>: with five obstacles asked for on a grid of one
  cell the capacity is exceeded, and the generator returns the empty level, not an error.
\<close>

theorem no_capacity_error_without_pieces:
  "(0::int) * 2 + 5 > 1 * 1
   \<and> generate_kuboble_level identity_shuffle 1 1 0 5 100 25 True = Inr (Some (''.'', []))"
  by code_simp

text \<open>
  C7, amended.  When \<open>num_pieces\<close> is not 0, the generator raises a \<open>ValueError\<close> (which is
  not the result \<open>None\<close>) whenever \<open>num_pieces > 26\<close> or \<open>2 * num_pieces + num_obstacles\<close>
  exceeds \<open>width * height\<close>; when \<open>num_pieces\<close> is 0 it checks nothing and returns the empty
  level with the empty solution.
\<close>

theorem configuration_errors:
  "(num_pieces \<noteq> 0 \<and> (num_pieces > 26 \<or> 2 * num_pieces + num_obstacles > w * h) \<longrightarrow>
      (\<exists>msg. generate_kuboble_level shuffle w h num_pieces num_obstacles max_attempts
                max_depth nontrivial = Inl (ValueError msg)))
   \<and> (num_pieces = 0 \<longrightarrow>
        generate_kuboble_level shuffle w h num_pieces num_obstacles max_attempts
          max_depth nontrivial = Inr (Some (coords_to_level_string w h [] [] [], [])))"
  by (auto simp: generate_kuboble_level_def mult.commute)

theorem configuration_errors_witness:
  "(\<exists>msg. generate_kuboble_level identity_shuffle 10 10 27 0 100 25 True = Inl (ValueError msg))
   \<and> (\<exists>msg. generate_kuboble_level identity_shuffle 1 1 1 0 100 25 True = Inl (ValueError msg))
   \<and> generate_kuboble_level identity_shuffle 3 3 0 0 100 25 True
       = Inr (Some (coords_to_level_string 3 3 [] [] [], []))"
  using configuration_errors [where num_pieces = 27 and num_obstacles = 0 and w = 10 and h = 10
      and shuffle = identity_shuffle and max_attempts = 100 and max_depth = 25 and nontrivial = True]
    configuration_errors [where num_pieces = 1 and num_obstacles = 0 and w = 1 and h = 1
      and shuffle = identity_shuffle and max_attempts = 100 and max_depth = 25 and nontrivial = True]
    configuration_errors [where num_pieces = 0 and num_obstacles = 0 and w = 3 and h = 3
      and shuffle = identity_shuffle and max_attempts = 100 and max_depth = 25 and nontrivial = True]
  by simp

section \<open>Slides (C2)\<close>

text \<open>\<open>step_cell start d k\<close> is the cell \<open>k\<close> steps from \<open>start\<close> in direction \<open>d\<close>.  A cell is
  passable for a piece when it is in the grid, does not hold \<open>X\<close> and holds no other piece;
  it is obstructed when it is off the grid, holds \<open>X\<close> or holds another piece.\<close>

definition step_cell :: "pos \<Rightarrow> direction \<Rightarrow> nat \<Rightarrow> pos" where
  "step_cell start d k = (fst start + int k * dr d, snd start + int k * dc d)"

definition passable :: "game \<Rightarrow> string \<Rightarrow> pos \<Rightarrow> bool" where
  "passable g piece_char cell \<longleftrightarrow>
     in_grid g cell
     \<and> (case grid_get (grid g) (fst cell) (snd cell) of Inl e \<Rightarrow> False | Inr v \<Rightarrow> v \<noteq> ''X'')
     \<and> \<not> blocked_by_other (pieces g) piece_char cell"

definition obstructed :: "game \<Rightarrow> string \<Rightarrow> pos \<Rightarrow> bool" where
  "obstructed g piece_char cell \<longleftrightarrow>
     \<not> in_grid g cell
     \<or> grid_get (grid g) (fst cell) (snd cell) = Inr ''X''
     \<or> blocked_by_other (pieces g) piece_char cell"

lemma step_cell_0 [simp]: "step_cell start d 0 = start"
  by (simp add: step_cell_def)

lemma step_cell_shift:
  "step_cell (fst start + dr d, snd start + dc d) d k = step_cell start d (Suc k)"
  by (simp add: step_cell_def algebra_simps)

lemma step_cell_1: "step_cell start d (Suc 0) = (fst start + dr d, snd start + dc d)"
  by (simp add: step_cell_def)

lemma slide_unfold:
  "slide g p d r c =
     (if \<not> in_grid g (r + dr d, c + dc d) then Inr (r, c)
      else (case grid_get (grid g) (r + dr d) (c + dc d) of
              Inl e \<Rightarrow> Inl e
            | Inr cell \<Rightarrow>
                if cell = ''X'' then Inr (r, c)
                else if blocked_by_other (pieces g) p (r + dr d, c + dc d) then Inr (r, c)
                else slide g p d (r + dr d) (c + dc d)))"
  by (subst slide.simps) (simp add: Let_def)

lemma slide_stops:
  "slide g p d r c = Inr land \<Longrightarrow>
     \<exists>k. land = step_cell (r, c) d k
        \<and> (\<forall>i. 1 \<le> i \<and> i \<le> k \<longrightarrow> passable g p (step_cell (r, c) d i))
        \<and> obstructed g p (step_cell (r, c) d (Suc k))"
proof (induction g p d r c arbitrary: land rule: slide.induct)
  case (1 g p d r c)
  let ?next = "(r + dr d, c + dc d)"
  have nxt: "step_cell (r, c) d (Suc 0) = ?next"
    by (simp add: step_cell_1)
  show ?case
  proof (cases "in_grid g ?next")
    case False
    with "1.prems" have "land = (r, c)" by (subst (asm) slide_unfold) simp
    moreover from False have "obstructed g p (step_cell (r, c) d (Suc 0))"
      by (simp add: obstructed_def nxt)
    ultimately show ?thesis by (intro exI [of _ 0]) simp
  next
    case ing: True
    show ?thesis
    proof (cases "grid_get (grid g) (r + dr d) (c + dc d)")
      case (Inl e)
      with "1.prems" ing show ?thesis by (subst (asm) slide_unfold) simp
    next
      case (Inr cell)
      show ?thesis
      proof (cases "cell = ''X'' \<or> blocked_by_other (pieces g) p ?next")
        case True
        with "1.prems" ing Inr have "land = (r, c)" by (subst (asm) slide_unfold) (auto split: if_splits)
        moreover from True Inr have "obstructed g p (step_cell (r, c) d (Suc 0))"
          by (auto simp: obstructed_def nxt)
        ultimately show ?thesis by (intro exI [of _ 0]) simp
      next
        case False
        with "1.prems" ing Inr have rec: "slide g p d (r + dr d) (c + dc d) = Inr land"
          by (subst (asm) slide_unfold) simp
        from False ing Inr have free: "passable g p ?next"
          by (simp add: passable_def)
        from "1.IH" [OF refl refl _ Inr _ _ rec] ing False
        obtain k where k: "land = step_cell ?next d k"
          "\<forall>i. 1 \<le> i \<and> i \<le> k \<longrightarrow> passable g p (step_cell ?next d i)"
          "obstructed g p (step_cell ?next d (Suc k))"
          by auto
        have shift: "step_cell ?next d j = step_cell (r, c) d (Suc j)" for j
          using step_cell_shift [of "(r, c)" d j] by simp
        have "\<forall>i. 1 \<le> i \<and> i \<le> Suc k \<longrightarrow> passable g p (step_cell (r, c) d i)"
        proof (intro allI impI)
          fix i assume i: "1 \<le> i \<and> i \<le> Suc k"
          show "passable g p (step_cell (r, c) d i)"
          proof (cases "i = 1")
            case True
            with free nxt show ?thesis by simp
          next
            case False
            with i obtain j where j: "i = Suc j" "1 \<le> j" "j \<le> k"
              by (cases i) auto
            with k(2) have "passable g p (step_cell ?next d j)" by blast
            with j shift show ?thesis by simp
          qed
        qed
        with k shift show ?thesis by (intro exI [of _ "Suc k"]) simp
      qed
    qed
  qed
qed

lemma moves_in_direction_sound:
  assumes "moves_in_direction g p start d = Inr ms" and "m \<in> set ms"
  shows "\<exists>k. 1 \<le> k \<and> m = (p, step_cell start d k, direction_name d)
          \<and> step_cell start d k \<noteq> start
          \<and> (\<forall>i \<in> {1..k}. passable g p (step_cell start d i))
          \<and> obstructed g p (step_cell start d (k + 1))"
proof -
  obtain r c where start: "start = (r, c)" by (cases start)
  from assms obtain land where land: "slide g p d r c = Inr land" "land \<noteq> (r, c)"
    "m = (p, land, direction_name d)"
    by (auto simp: moves_in_direction_def start Let_def split: if_splits sum.splits)
  from slide_stops [OF land(1)] obtain k where k: "land = step_cell (r, c) d k"
    "\<forall>i. 1 \<le> i \<and> i \<le> k \<longrightarrow> passable g p (step_cell (r, c) d i)"
    "obstructed g p (step_cell (r, c) d (Suc k))"
    by blast
  from k(1) land(2) have "1 \<le> k" by (cases k) auto
  with k land start show ?thesis by (intro exI [of _ k]) auto
qed

lemma collect_member:
  "collect f xs = Inr ys \<Longrightarrow> y \<in> set ys \<Longrightarrow> \<exists>x \<in> set xs. \<exists>zs. f x = Inr zs \<and> y \<in> set zs"
  by (induction xs arbitrary: ys) (auto split: sum.splits)

lemma collect_contains:
  "collect f xs = Inr ys \<Longrightarrow> x \<in> set xs \<Longrightarrow> f x = Inr zs \<Longrightarrow> set zs \<subseteq> set ys"
  by (induction xs arbitrary: ys) (auto split: sum.splits)

lemma collect_total:
  "\<forall>x \<in> set xs. \<exists>zs. f x = Inr zs \<Longrightarrow> \<exists>ys. collect f xs = Inr ys"
  by (induction xs) (auto split: sum.splits)

lemma get_possible_moves_member:
  assumes "get_possible_moves g = Inr ms" and "m \<in> set ms"
  shows "\<exists>p start d zs. (p, start) \<in> set (pieces g) \<and> d \<in> set directions
           \<and> moves_in_direction g p start d = Inr zs \<and> m \<in> set zs"
proof -
  from collect_member [OF assms [unfolded get_possible_moves_def]]
  obtain p start zs where a: "(p, start) \<in> set (pieces g)"
    "collect (moves_in_direction g p start) directions = Inr zs" "m \<in> set zs"
    by auto
  from collect_member [OF a(2,3)] a(1) show ?thesis by blast
qed

text \<open>
  C2.  Every triple that \<open>get_possible_moves\<close> emits is a maximal slide of a piece of the
  state: the landing cell is \<open>k \<ge> 1\<close> steps from the piece's cell in the named direction
  and differs from it, each of the cells 1 to \<open>k\<close> steps away is in the grid, not an obstacle
  and not occupied by another piece, and the cell \<open>k + 1\<close> steps away is off the grid, an
  obstacle or occupied by another piece.
\<close>

theorem possible_moves_are_maximal_slides:
  assumes "get_possible_moves g = Inr ms" and "(piece_char, landing, dname) \<in> set ms"
  shows "\<exists>start d k. (piece_char, start) \<in> set (pieces g) \<and> d \<in> set directions
           \<and> dname = direction_name d \<and> landing \<noteq> start \<and> 1 \<le> k
           \<and> landing = step_cell start d k
           \<and> (\<forall>i \<in> {1..k}. passable g piece_char (step_cell start d i))
           \<and> obstructed g piece_char (step_cell start d (k + 1))"
proof -
  from get_possible_moves_member [OF assms]
  obtain p start d zs where a: "(p, start) \<in> set (pieces g)" "d \<in> set directions"
    "moves_in_direction g p start d = Inr zs" "(piece_char, landing, dname) \<in> set zs"
    by blast
  from moves_in_direction_sound [OF a(3,4)] a(1,2) show ?thesis by fastforce
qed

theorem possible_moves_are_maximal_slides_witness:
  "get_possible_moves (parse_level ''A . .;X . .;b a .'') = Inr [(''A'', (0, 2), ''right'')]
   \<and> (\<exists>start d k. (''A'', start) \<in> set (pieces (parse_level ''A . .;X . .;b a .''))
         \<and> d \<in> set directions \<and> ''right'' = direction_name d \<and> (0, 2) \<noteq> start \<and> 1 \<le> k
         \<and> (0, 2) = step_cell start d k
         \<and> (\<forall>i \<in> {1..k}. passable (parse_level ''A . .;X . .;b a .'') ''A'' (step_cell start d i))
         \<and> obstructed (parse_level ''A . .;X . .;b a .'') ''A'' (step_cell start d (k + 1)))"
proof -
  have ms: "get_possible_moves (parse_level ''A . .;X . .;b a .'')
              = Inr [(''A'', (0, 2), ''right'')]"
    by code_simp
  have mem: "(''A'', (0, 2), ''right'') \<in> set [(''A'', (0::int, 2::int), ''right'')]"
    by simp
  from possible_moves_are_maximal_slides [OF ms mem] ms show ?thesis
    by simp
qed

section \<open>Well-formed states\<close>

text \<open>A well-formed state: the grid has \<open>height\<close> rows of \<open>width\<close> cells, the keys of the
  pieces dict are distinct and none is \<open>X\<close>, every piece is in the grid and the grid holds
  its name at its cell, and every other cell of the grid holds a dot or \<open>X\<close>.  So no piece
  is on an obstacle and no two pieces share a cell.\<close>

definition valid_state :: "game \<Rightarrow> bool" where
  "valid_state g \<longleftrightarrow>
     length (grid g) = nat (height g)
     \<and> (\<forall>row \<in> set (grid g). length row = nat (width g))
     \<and> distinct (map fst (pieces g))
     \<and> ''X'' \<notin> fst ` set (pieces g)
     \<and> (\<forall>(p, cell) \<in> set (pieces g).
           in_grid g cell \<and> grid g ! nat (fst cell) ! nat (snd cell) = p)
     \<and> (\<forall>r \<in> {0..<nat (height g)}. \<forall>c \<in> {0..<nat (width g)}.
           grid g ! r ! c = ''.'' \<or> grid g ! r ! c = ''X''
           \<or> (grid g ! r ! c, (int r, int c)) \<in> set (pieces g))"

text \<open>The obstacle cells of a state are the cells of its grid that hold \<open>X\<close>.\<close>

definition obstacles :: "game \<Rightarrow> pos list" where
  "obstacles g =
     [(int r, int c). r \<leftarrow> [0..<length (grid g)], c \<leftarrow> [0..<length (grid g ! r)],
                      grid g ! r ! c = ''X'']"

text \<open>The states reached from \<open>g0\<close> by applying possible moves.\<close>

inductive reachable :: "game \<Rightarrow> game \<Rightarrow> bool" for g0 :: game where
  start: "reachable g0 g0"
| step: "reachable g0 g \<Longrightarrow> get_possible_moves g = Inr ms \<Longrightarrow> (p, cell, dname) \<in> set ms \<Longrightarrow>
         apply_move g p cell = Inr g' \<Longrightarrow> reachable g0 g'"

definition shaped :: "'a list list \<Rightarrow> int \<Rightarrow> int \<Rightarrow> bool" where
  "shaped g h w \<longleftrightarrow> length g = nat h \<and> (\<forall>row \<in> set g. length row = nat w)"

lemma shaped_put_cell:
  assumes "shaped g h w"
  shows "shaped (put_cell g p v) h w"
proof (cases "nat (fst p) < length g")
  case True
  then have "g ! nat (fst p) \<in> set g" by simp
  with assms have "length ((g ! nat (fst p))[nat (snd p) := v]) = nat w"
    by (simp add: shaped_def)
  with assms show ?thesis
    by (auto simp: shaped_def put_cell_def dest!: set_update_subset_insert [THEN subsetD])
next
  case False
  then have "g[nat (fst p) := (g ! nat (fst p))[nat (snd p) := v]] = g"
    by (intro list_update_beyond) simp
  with assms show ?thesis by (simp add: put_cell_def)
qed

lemma py_index_in: "0 \<le> i \<Longrightarrow> i < int (length xs) \<Longrightarrow> py_index xs i = Inr (nat i)"
  by (simp add: py_index_def)

lemma grid_get_in:
  assumes "shaped g h w" "0 \<le> r" "r < h" "0 \<le> c" "c < w"
  shows "grid_get g r c = Inr (g ! nat r ! nat c)"
proof -
  from assms have r: "py_index g r = Inr (nat r)" by (intro py_index_in) (auto simp: shaped_def)
  from assms have "g ! nat r \<in> set g" by (auto simp: shaped_def)
  with assms have "length (g ! nat r) = nat w" by (auto simp: shaped_def)
  with assms have "py_index (g ! nat r) c = Inr (nat c)" by (intro py_index_in) auto
  with r show ?thesis by (simp add: grid_get_def py_get_def)
qed

lemma grid_set_in:
  assumes "shaped g h w" "0 \<le> r" "r < h" "0 \<le> c" "c < w"
  shows "grid_set g r c v = Inr (put_cell g (r, c) v)"
proof -
  from assms have r: "py_index g r = Inr (nat r)" by (intro py_index_in) (auto simp: shaped_def)
  from assms have "g ! nat r \<in> set g" by (auto simp: shaped_def)
  with assms have "length (g ! nat r) = nat w" by (auto simp: shaped_def)
  with assms have "py_index (g ! nat r) c = Inr (nat c)" by (intro py_index_in) auto
  with r show ?thesis by (simp add: grid_set_def py_set_def put_cell_def)
qed

lemma nth_put_cell:
  assumes "shaped g h w" "0 \<le> r" "r < h" "0 \<le> c" "c < w" "r' < nat h" "c' < nat w"
  shows "put_cell g (r, c) v ! r' ! c' = (if r' = nat r \<and> c' = nat c then v else g ! r' ! c')"
proof -
  from assms have "g ! nat r \<in> set g" by (auto simp: shaped_def)
  with assms have "length (g ! nat r) = nat w" by (auto simp: shaped_def)
  with assms show ?thesis by (auto simp: put_cell_def shaped_def nth_list_update)
qed

lemma update_member:
  assumes "distinct (map fst ps)"
  shows "(q, c) \<in> set (AList.update p v ps) \<longleftrightarrow> (if q = p then c = v else (q, c) \<in> set ps)"
proof -
  have "distinct (map fst (AList.update p v ps))" using assms by (rule distinct_update)
  then have "(q, c) \<in> set (AList.update p v ps) \<longleftrightarrow> map_of (AList.update p v ps) q = Some c"
    by simp
  also have "\<dots> \<longleftrightarrow> (if q = p then c = v else map_of ps q = Some c)"
    by (auto simp: update_conv')
  also have "\<dots> \<longleftrightarrow> (if q = p then c = v else (q, c) \<in> set ps)"
    using assms by simp
  finally show ?thesis .
qed

lemma update_keys_same:
  "p \<in> fst ` set ps \<Longrightarrow> map fst (AList.update p v ps) = map fst ps"
  by (induction ps) auto

lemma blocked_by_other_iff:
  "blocked_by_other ps p cell \<longleftrightarrow> (\<exists>q. q \<noteq> p \<and> (q, cell) \<in> set ps)"
  by (auto simp: blocked_by_other_def list_ex_iff)

section \<open>Possible moves keep a state well-formed\<close>

lemma valid_shaped: "valid_state g \<Longrightarrow> shaped (grid g) (height g) (width g)"
  by (simp add: valid_state_def shaped_def)

lemma valid_piece_at:
  "valid_state g \<Longrightarrow> (q, cell) \<in> set (pieces g) \<Longrightarrow>
     in_grid g cell \<and> grid g ! nat (fst cell) ! nat (snd cell) = q"
  by (auto simp: valid_state_def)

lemma valid_cell:
  "valid_state g \<Longrightarrow> r < nat (height g) \<Longrightarrow> c < nat (width g) \<Longrightarrow>
     grid g ! r ! c = ''.'' \<or> grid g ! r ! c = ''X''
     \<or> (grid g ! r ! c, (int r, int c)) \<in> set (pieces g)"
  by (simp add: valid_state_def)

lemma valid_unique_cell:
  "valid_state g \<Longrightarrow> (p, a) \<in> set (pieces g) \<Longrightarrow> (p, b) \<in> set (pieces g) \<Longrightarrow> a = b"
  by (auto simp: valid_state_def dest: eq_key_imp_eq_value)

lemma move_lands:
  assumes "get_possible_moves g = Inr ms" and "(p, land, dn) \<in> set ms"
  shows "\<exists>start. (p, start) \<in> set (pieces g) \<and> land \<noteq> start \<and> passable g p land"
proof -
  from get_possible_moves_member [OF assms]
  obtain q start d zs where a: "(q, start) \<in> set (pieces g)"
    "moves_in_direction g q start d = Inr zs" "(p, land, dn) \<in> set zs"
    by blast
  from moves_in_direction_sound [OF a(2,3)] obtain k where
    k: "1 \<le> k" "p = q" "land = step_cell start d k" "land \<noteq> start"
       "\<forall>i \<in> {1..k}. passable g q (step_cell start d i)"
    by auto
  from k(1,5) have "passable g q (step_cell start d k)" by simp
  with a(1) k show ?thesis by (intro exI [of _ start]) simp
qed

definition moved :: "game \<Rightarrow> string \<Rightarrow> pos \<Rightarrow> pos \<Rightarrow> game" where
  "moved g p start land =
     \<lparr>grid = put_cell (put_cell (grid g) start ''.'') land p,
      pieces = AList.update p land (pieces g),
      targets = targets g, width = width g, height = height g\<rparr>"

lemma apply_move_in_grid:
  assumes "valid_state g" "(p, start) \<in> set (pieces g)" "in_grid g land"
  shows "apply_move g p land = Inr (moved g p start land)"
proof -
  from assms have look: "map_of (pieces g) p = Some start"
    by (simp add: valid_state_def)
  from valid_piece_at [OF assms(1,2)] have st: "in_grid g start" by simp
  have sh: "shaped (grid g) (height g) (width g)" using assms(1) by (rule valid_shaped)
  from st sh have one: "grid_set (grid g) (fst start) (snd start) ''.''
                        = Inr (put_cell (grid g) start ''.'')"
    using grid_set_in [of "grid g" "height g" "width g" "fst start" "snd start" "''.''"]
    by (simp add: in_grid_def)
  have sh1: "shaped (put_cell (grid g) start ''.'') (height g) (width g)"
    using sh by (rule shaped_put_cell)
  from assms(3) sh1 have two:
    "grid_set (put_cell (grid g) start ''.'') (fst land) (snd land) p
       = Inr (put_cell (put_cell (grid g) start ''.'') land p)"
    using grid_set_in [of "put_cell (grid g) start ''.''" "height g" "width g"
                          "fst land" "snd land" p]
    by (simp add: in_grid_def)
  from look one two show ?thesis
    by (cases start) (simp add: apply_move_def moved_def)
qed

lemma moved_cell:
  assumes "valid_state g" "in_grid g start" "in_grid g land"
    "r < nat (height g)" "c < nat (width g)"
  shows "grid (moved g p start land) ! r ! c =
           (if (int r, int c) = land then p
            else if (int r, int c) = start then ''.'' else grid g ! r ! c)"
proof -
  have sh: "shaped (grid g) (height g) (width g)" using assms(1) by (rule valid_shaped)
  have sh1: "shaped (put_cell (grid g) start ''.'') (height g) (width g)"
    using sh by (rule shaped_put_cell)
  have a: "put_cell (grid g) start ''.'' ! r ! c
           = (if r = nat (fst start) \<and> c = nat (snd start) then ''.'' else grid g ! r ! c)"
    using nth_put_cell [OF sh, of "fst start" "snd start" r c "''.''"] assms
    by (simp add: in_grid_def)
  have b: "put_cell (put_cell (grid g) start ''.'') land p ! r ! c
           = (if r = nat (fst land) \<and> c = nat (snd land) then p
              else put_cell (grid g) start ''.'' ! r ! c)"
    using nth_put_cell [OF sh1, of "fst land" "snd land" r c p] assms
    by (simp add: in_grid_def)
  from assms(2,3) have eqs:
    "(int r, int c) = land \<longleftrightarrow> r = nat (fst land) \<and> c = nat (snd land)"
    "(int r, int c) = start \<longleftrightarrow> r = nat (fst start) \<and> c = nat (snd start)"
    by (auto simp: in_grid_def)
  have "grid (moved g p start land) ! r ! c =
          (if r = nat (fst land) \<and> c = nat (snd land) then p
           else if r = nat (fst start) \<and> c = nat (snd start) then ''.'' else grid g ! r ! c)"
    unfolding moved_def game.select_convs b a ..
  then show ?thesis unfolding eqs .
qed


lemma passable_cell:
  assumes "valid_state g" "passable g p land"
  shows "in_grid g land" "grid g ! nat (fst land) ! nat (snd land) \<noteq> ''X''"
    "\<And>q. q \<noteq> p \<Longrightarrow> (q, land) \<notin> set (pieces g)"
proof -
  from assms(2) show ing: "in_grid g land" by (simp add: passable_def)
  with grid_get_in [OF valid_shaped [OF assms(1)], of "fst land" "snd land"]
  have "grid_get (grid g) (fst land) (snd land) = Inr (grid g ! nat (fst land) ! nat (snd land))"
    by (simp add: in_grid_def)
  with assms(2) show "grid g ! nat (fst land) ! nat (snd land) \<noteq> ''X''"
    by (simp add: passable_def)
  from assms(2) show "\<And>q. q \<noteq> p \<Longrightarrow> (q, land) \<notin> set (pieces g)"
    by (auto simp: passable_def blocked_by_other_iff)
qed

lemma landing_free:
  assumes v: "valid_state g" and p: "(p, start) \<in> set (pieces g)"
    and ne: "land \<noteq> start" and free: "passable g p land"
  shows "grid g ! nat (fst land) ! nat (snd land) = ''.''" "\<And>q. (q, land) \<notin> set (pieces g)"
proof -
  note pc = passable_cell [OF v free]
  show none: "\<And>q. (q, land) \<notin> set (pieces g)"
  proof
    fix q assume q: "(q, land) \<in> set (pieces g)"
    with pc(3) have "q = p" by blast
    with q p v have "land = start" by (blast dest: valid_unique_cell)
    with ne show False by simp
  qed
  from pc(1) have "nat (fst land) < nat (height g)" "nat (snd land) < nat (width g)"
    "(int (nat (fst land)), int (nat (snd land))) = land"
    by (auto simp: in_grid_def)
  with valid_cell [OF v, of "nat (fst land)" "nat (snd land)"] pc(2) none
  show "grid g ! nat (fst land) ! nat (snd land) = ''.''"
    by auto
qed

lemma in_grid_moved [simp]: "in_grid (moved g p start land) cell = in_grid g cell"
  by (simp add: in_grid_def moved_def)

lemma valid_moved:
  assumes v: "valid_state g" and p: "(p, start) \<in> set (pieces g)"
    and ne: "land \<noteq> start" and free: "passable g p land"
  shows "valid_state (moved g p start land)"
proof -
  let ?g = "moved g p start land"
  note pc = passable_cell [OF v free]
  note lf = landing_free [OF v p ne free]
  from valid_piece_at [OF v p] have st: "in_grid g start"
    "grid g ! nat (fst start) ! nat (snd start) = p" by simp_all
  have dk: "distinct (map fst (pieces g))" using v by (simp add: valid_state_def)
  have nx: "''X'' \<notin> fst ` set (pieces g)" using v by (simp add: valid_state_def)
  from p have "p \<in> fst ` set (pieces g)" by force
  with nx have px: "p \<noteq> ''X''" by blast
  have cellg: "grid ?g ! r ! c =
           (if (int r, int c) = land then p
            else if (int r, int c) = start then ''.'' else grid g ! r ! c)"
    if "r < nat (height g)" "c < nat (width g)" for r c
    using moved_cell [OF v st(1) pc(1) that] .
  have mem: "(q, cell) \<in> set (pieces ?g) \<longleftrightarrow>
               (if q = p then cell = land else (q, cell) \<in> set (pieces g))" for q cell
    using update_member [OF dk] by (simp add: moved_def)
  have sh: "shaped (grid ?g) (height g) (width g)"
    unfolding moved_def game.select_convs
    by (intro shaped_put_cell valid_shaped [OF v])
  have c1: "length (grid ?g) = nat (height ?g)"
    using sh by (simp add: shaped_def moved_def)
  have c2: "\<forall>row \<in> set (grid ?g). length row = nat (width ?g)"
    using sh by (simp add: shaped_def moved_def)
  have c3: "distinct (map fst (pieces ?g))"
    using dk by (simp add: moved_def distinct_update)
  have "fst ` set (pieces ?g) = {p} \<union> fst ` set (pieces g)"
    by (simp add: moved_def dom_update)
  with nx px have c4: "''X'' \<notin> fst ` set (pieces ?g)"
    by simp
  have c5: "\<forall>(q, cell) \<in> set (pieces ?g).
              in_grid ?g cell \<and> grid ?g ! nat (fst cell) ! nat (snd cell) = q"
  proof (clarify, intro conjI)
    fix q a b assume q: "(q, (a, b)) \<in> set (pieces ?g)"
    show "in_grid ?g (a, b)"
      using q pc(1) valid_piece_at [OF v, of q "(a, b)"] by (auto simp: mem split: if_splits)
    then have "in_grid g (a, b)" by simp
    then have rng: "nat a < nat (height g)" "nat b < nat (width g)"
      "(int (nat a), int (nat b)) = (a, b)"
      by (auto simp: in_grid_def)
    note here = cellg [OF rng(1,2), unfolded rng(3)]
    have "grid ?g ! nat a ! nat b = q"
    proof (cases "q = p")
      case True
      with q have "(a, b) = land" by (simp add: mem)
      with here True show ?thesis by simp
    next
      case False
      with q have old: "(q, (a, b)) \<in> set (pieces g)" by (simp add: mem)
      with lf(2) have "(a, b) \<noteq> land" by blast
      moreover from old False st(2) valid_piece_at [OF v old] have "(a, b) \<noteq> start" by auto
      ultimately show ?thesis
        using here valid_piece_at [OF v old] by simp
    qed
    then show "grid ?g ! nat (fst (a, b)) ! nat (snd (a, b)) = q" by simp
  qed
  have c6: "\<forall>r \<in> {0..<nat (height ?g)}. \<forall>c \<in> {0..<nat (width ?g)}.
           grid ?g ! r ! c = ''.'' \<or> grid ?g ! r ! c = ''X''
           \<or> (grid ?g ! r ! c, (int r, int c)) \<in> set (pieces ?g)"
  proof (intro ballI)
    fix r c assume "r \<in> {0..<nat (height ?g)}" "c \<in> {0..<nat (width ?g)}"
    then have rng: "r < nat (height g)" "c < nat (width g)" by (simp_all add: moved_def)
    show "grid ?g ! r ! c = ''.'' \<or> grid ?g ! r ! c = ''X''
           \<or> (grid ?g ! r ! c, (int r, int c)) \<in> set (pieces ?g)"
    proof (cases "(int r, int c) = land")
      case True
      with cellg [OF rng] show ?thesis by (simp add: mem)
    next
      case nl: False
      show ?thesis
      proof (cases "(int r, int c) = start")
        case True
        with nl cellg [OF rng] show ?thesis by simp
      next
        case False
        with nl cellg [OF rng] have same: "grid ?g ! r ! c = grid g ! r ! c" by simp
        from valid_cell [OF v rng] show ?thesis
        proof (elim disjE)
          assume old: "(grid g ! r ! c, (int r, int c)) \<in> set (pieces g)"
          with False p v have "grid g ! r ! c \<noteq> p" by (auto dest: valid_unique_cell)
          with old same show ?thesis by (simp add: mem)
        qed (simp_all add: same)
      qed
    qed
  qed
  show ?thesis
    unfolding valid_state_def by (intro conjI c1 c2 c3 c4 c5 c6)
qed

lemma obstacles_moved:
  assumes v: "valid_state g" and p: "(p, start) \<in> set (pieces g)"
    and ne: "land \<noteq> start" and free: "passable g p land"
  shows "obstacles (moved g p start land) = obstacles g"
proof -
  let ?g = "moved g p start land"
  note pc = passable_cell [OF v free]
  note lf = landing_free [OF v p ne free]
  from valid_piece_at [OF v p] have st: "in_grid g start"
    "grid g ! nat (fst start) ! nat (snd start) = p" by simp_all
  have nx: "''X'' \<notin> fst ` set (pieces g)" using v by (simp add: valid_state_def)
  from p have "p \<in> fst ` set (pieces g)" by force
  with nx have px: "p \<noteq> ''X''" by blast
  have sh: "shaped (grid g) (height g) (width g)" using v by (rule valid_shaped)
  have sh': "shaped (grid ?g) (height g) (width g)"
    unfolding moved_def game.select_convs by (intro shaped_put_cell sh)
  have len: "length (grid ?g) = length (grid g)"
    using sh sh' by (simp add: shaped_def)
  have row: "length (grid ?g ! r) = length (grid g ! r)" if "r < length (grid g)" for r
    using sh sh' that len by (simp add: shaped_def)
  have same: "(grid ?g ! r ! c = ''X'') = (grid g ! r ! c = ''X'')"
    if "r < length (grid g)" "c < length (grid g ! r)" for r c
  proof -
    from that sh have rng: "r < nat (height g)" "c < nat (width g)"
      by (auto simp: shaped_def)
    from pc(1) st(1) have idx: "(int r, int c) = land \<Longrightarrow> r = nat (fst land) \<and> c = nat (snd land)"
      "(int r, int c) = start \<Longrightarrow> r = nat (fst start) \<and> c = nat (snd start)"
      by auto
    note mc = moved_cell [OF v st(1) pc(1) rng, of p]
    show ?thesis
    proof (cases "(int r, int c) = land")
      case True
      with mc px lf(1) idx(1) show ?thesis by simp
    next
      case nl: False
      show ?thesis
      proof (cases "(int r, int c) = start")
        case True
        with nl mc px st(2) idx(2) show ?thesis by simp
      next
        case False
        with nl mc show ?thesis by simp
      qed
    qed
  qed
  have inner: "concat (map (\<lambda>c. if grid ?g ! r ! c = ''X'' then [(int r, int c)] else [])
                 [0..<length (grid ?g ! r)])
        = concat (map (\<lambda>c. if grid g ! r ! c = ''X'' then [(int r, int c)] else [])
                 [0..<length (grid g ! r)])" if "r < length (grid g)" for r
  proof -
    have "map (\<lambda>c. if grid ?g ! r ! c = ''X'' then [(int r, int c)] else [])
                 [0..<length (grid ?g ! r)]
          = map (\<lambda>c. if grid g ! r ! c = ''X'' then [(int r, int c)] else [])
                 [0..<length (grid g ! r)]"
      unfolding row [OF that]
      by (rule map_cong [OF refl]) (simp add: same [OF that])
    then show ?thesis by (rule arg_cong [where f = concat])
  qed
  have "map (\<lambda>r. concat (map (\<lambda>c. if grid ?g ! r ! c = ''X'' then [(int r, int c)] else [])
                 [0..<length (grid ?g ! r)])) [0..<length (grid g)]
        = map (\<lambda>r. concat (map (\<lambda>c. if grid g ! r ! c = ''X'' then [(int r, int c)] else [])
                 [0..<length (grid g ! r)])) [0..<length (grid g)]"
    by (rule map_cong [OF refl]) (simp add: inner)
  then show ?thesis
    unfolding obstacles_def len by (rule arg_cong [where f = concat])
qed

lemma legal_move_valid:
  assumes "valid_state g" "get_possible_moves g = Inr ms" "(p, land, dn) \<in> set ms"
  shows "\<exists>g'. apply_move g p land = Inr g' \<and> valid_state g'
               \<and> width g' = width g \<and> height g' = height g \<and> targets g' = targets g
               \<and> obstacles g' = obstacles g \<and> map fst (pieces g') = map fst (pieces g)
               \<and> pieces g' = AList.update p land (pieces g)"
proof -
  from move_lands [OF assms(2,3)] obtain start where
    s: "(p, start) \<in> set (pieces g)" "land \<noteq> start" "passable g p land"
    by blast
  from passable_cell(1) [OF assms(1) s(3)] have "in_grid g land" .
  from apply_move_in_grid [OF assms(1) s(1) this]
  have "apply_move g p land = Inr (moved g p start land)" .
  moreover have "valid_state (moved g p start land)"
    using assms(1) s by (rule valid_moved)
  moreover have "obstacles (moved g p start land) = obstacles g"
    using assms(1) s by (rule obstacles_moved)
  moreover have "map fst (pieces (moved g p start land)) = map fst (pieces g)"
    using update_keys_same [of p "pieces g" land] s(1) by (force simp: moved_def)
  ultimately show ?thesis by (simp add: moved_def)
qed

section \<open>Parsed levels are well-formed\<close>

lemma fold_width_ge:
  "m \<le> fold (\<lambda>toks m. if length toks > m then length toks else m) rows m"
proof (induction rows arbitrary: m)
  case Nil
  show ?case by simp
next
  case (Cons row rows)
  let ?m = "if length row > m then length row else m"
  have "m \<le> ?m" by simp
  also have "?m \<le> fold (\<lambda>toks m. if length toks > m then length toks else m) rows ?m"
    by (rule Cons.IH)
  finally show ?case by simp
qed

lemma fold_width_bound:
  "toks \<in> set rows \<Longrightarrow>
     length toks \<le> fold (\<lambda>toks m. if length toks > m then length toks else m) rows m"
proof (induction rows arbitrary: m)
  case Nil
  then show ?case by simp
next
  case (Cons row rows)
  show ?case
  proof (cases "toks = row")
    case True
    have "(if length row > m then length row else m)
            \<le> fold (\<lambda>toks m. if length toks > m then length toks else m) rows
                 (if length row > m then length row else m)"
      by (rule fold_width_ge)
    with True show ?thesis by (simp split: if_splits)
  next
    case False
    with Cons show ?thesis by simp
  qed
qed

lemma max_width_bound: "toks \<in> set rows \<Longrightarrow> length toks \<le> max_width rows"
  unfolding max_width_def by (rule fold_width_bound)

definition placed_ok :: "string list list \<Rightarrow> pdict \<Rightarrow> bool" where
  "placed_ok rows ps \<longleftrightarrow>
     distinct (map fst ps)
     \<and> (\<forall>(p, cell) \<in> set ps.
           0 \<le> fst cell \<and> 0 \<le> snd cell \<and> nat (fst cell) < length rows
           \<and> nat (snd cell) < length (rows ! nat (fst cell))
           \<and> fst (cell_contents (rows ! nat (fst cell) ! nat (snd cell))) = Some p)"

lemma placed_ok_Nil: "placed_ok rows []"
  by (simp add: placed_ok_def)

lemma fst_place_cell:
  "fst (place_cell r c tok pt) =
     (case fst (cell_contents tok) of None \<Rightarrow> fst pt
      | Some p \<Rightarrow> AList.update p (r, c) (fst pt))"
  by (cases "cell_contents tok") (simp add: place_cell_def)

lemma snd_place_cell:
  "snd (place_cell r c tok pt) =
     (case snd (cell_contents tok) of None \<Rightarrow> snd pt
      | Some t \<Rightarrow> AList.update t (r, c) (snd pt))"
  by (cases "cell_contents tok") (simp add: place_cell_def)

lemma place_cell_ok:
  assumes ok: "placed_ok rows (fst pt)" and "0 \<le> r" "0 \<le> c" "nat r < length rows"
    "nat c < length (rows ! nat r)"
  shows "placed_ok rows (fst (place_cell r c (rows ! nat r ! nat c) pt))"
proof (cases "fst (cell_contents (rows ! nat r ! nat c))")
  case None
  with ok show ?thesis by (simp add: fst_place_cell)
next
  case (Some p)
  then have eq: "fst (place_cell r c (rows ! nat r ! nat c) pt) = AList.update p (r, c) (fst pt)"
    by (simp add: fst_place_cell)
  from ok have dk: "distinct (map fst (fst pt))" by (simp add: placed_ok_def)
  show ?thesis
    unfolding eq placed_ok_def
  proof (intro conjI)
    show "distinct (map fst (AList.update p (r, c) (fst pt)))"
      using dk by (rule distinct_update)
    show "\<forall>(q, cell) \<in> set (AList.update p (r, c) (fst pt)).
           0 \<le> fst cell \<and> 0 \<le> snd cell \<and> nat (fst cell) < length rows
           \<and> nat (snd cell) < length (rows ! nat (fst cell))
           \<and> fst (cell_contents (rows ! nat (fst cell) ! nat (snd cell))) = Some q"
    proof (clarify)
      fix q a b assume "(q, (a, b)) \<in> set (AList.update p (r, c) (fst pt))"
      then have "if q = p then (a, b) = (r, c) else (q, (a, b)) \<in> set (fst pt)"
        by (simp add: update_member [OF dk])
      then show "0 \<le> fst (a, b) \<and> 0 \<le> snd (a, b) \<and> nat (fst (a, b)) < length rows
           \<and> nat (snd (a, b)) < length (rows ! nat (fst (a, b)))
           \<and> fst (cell_contents (rows ! nat (fst (a, b)) ! nat (snd (a, b)))) = Some q"
        using assms Some by (auto simp: placed_ok_def split: if_splits)
    qed
  qed
qed

lemma place_row_ok:
  "placed_ok rows (fst pt) \<Longrightarrow> 0 \<le> r \<Longrightarrow> nat r < length rows \<Longrightarrow> 0 \<le> c \<Longrightarrow>
     rows ! nat r = pre @ toks \<Longrightarrow> nat c = length pre \<Longrightarrow>
     placed_ok rows (fst (place_row r c toks pt))"
proof (induction toks arbitrary: c pre pt)
  case Nil
  then show ?case by simp
next
  case (Cons tok toks)
  from Cons.prems have tok: "rows ! nat r ! nat c = tok" "nat c < length (rows ! nat r)"
    by simp_all
  from place_cell_ok [OF Cons.prems(1,2,4,3) tok(2)] tok(1)
  have "placed_ok rows (fst (place_cell r c tok pt))" by simp
  moreover from Cons.prems have "rows ! nat r = (pre @ [tok]) @ toks" "nat (c + 1) = length (pre @ [tok])"
    by simp_all
  ultimately have "placed_ok rows (fst (place_row r (c + 1) toks (place_cell r c tok pt)))"
    using Cons.prems by (intro Cons.IH [where pre = "pre @ [tok]"]) simp_all
  then show ?case by simp
qed

lemma place_rows_ok:
  "placed_ok rows (fst pt) \<Longrightarrow> 0 \<le> r \<Longrightarrow> rows = before @ rest \<Longrightarrow> nat r = length before \<Longrightarrow>
     \<forall>toks \<in> set rows. length toks \<le> w \<Longrightarrow>
     placed_ok rows (fst (place_rows w r rest pt))"
proof (induction rest arbitrary: r before pt)
  case Nil
  then show ?case by simp
next
  case (Cons toks rest)
  from Cons.prems have row: "rows ! nat r = toks" "nat r < length rows" "take w toks = toks"
    by auto
  have "placed_ok rows (fst (place_row r 0 toks pt))"
    using Cons.prems row by (intro place_row_ok [where pre = "[]"]) simp_all
  moreover from Cons.prems have "rows = (before @ [toks]) @ rest" "nat (r + 1) = length (before @ [toks])"
    by simp_all
  ultimately have "placed_ok rows (fst (place_rows w (r + 1) rest (place_row r 0 toks pt)))"
    using Cons.prems by (intro Cons.IH [where before = "before @ [toks]"]) simp_all
  with row show ?case by simp
qed


lemma write_piece_eq:
  "write_piece h w (p, cell) g =
     (if 0 \<le> fst cell \<and> fst cell < h \<and> 0 \<le> snd cell \<and> snd cell < w
      then put_cell g cell p else g)"
  by (cases cell) (simp add: write_piece_def put_cell_def)

lemma shaped_write_piece: "shaped g h w \<Longrightarrow> shaped (write_piece h w e g) h w"
  by (cases e) (simp add: write_piece_eq shaped_put_cell)

lemma shaped_fold_write: "shaped g h w \<Longrightarrow> shaped (fold (write_piece h w) ps g) h w"
  by (induction ps arbitrary: g) (simp_all add: shaped_write_piece)

lemma write_piece_other:
  assumes "shaped g h w" "r < nat h" "c < nat w" "snd e \<noteq> (int r, int c)"
  shows "write_piece h w e g ! r ! c = g ! r ! c"
proof -
  obtain p a b where e: "e = (p, (a, b))" by (cases e) auto
  show ?thesis
  proof (cases "0 \<le> a \<and> a < h \<and> 0 \<le> b \<and> b < w")
    case True
    with nth_put_cell [OF assms(1), of a b r c p] assms e show ?thesis
      by (auto simp: write_piece_eq)
  next
    case False
    with e show ?thesis by (auto simp: write_piece_eq)
  qed
qed

lemma write_piece_here:
  assumes "shaped g h w" "0 \<le> a" "a < h" "0 \<le> b" "b < w"
  shows "write_piece h w (p, (a, b)) g ! nat a ! nat b = p"
  using nth_put_cell [OF assms, of "nat a" "nat b" p] assms by (simp add: write_piece_eq)

lemma fold_write_other:
  "shaped g h w \<Longrightarrow> r < nat h \<Longrightarrow> c < nat w \<Longrightarrow> (int r, int c) \<notin> snd ` set ps \<Longrightarrow>
     fold (write_piece h w) ps g ! r ! c = g ! r ! c"
proof (induction ps arbitrary: g)
  case Nil
  then show ?case by simp
next
  case (Cons e ps)
  from Cons.prems have "fold (write_piece h w) ps (write_piece h w e g) ! r ! c
                        = write_piece h w e g ! r ! c"
    by (intro Cons.IH shaped_write_piece) simp_all
  also from Cons.prems have "\<dots> = g ! r ! c"
    by (intro write_piece_other) auto
  finally show ?case by simp
qed

lemma fold_write_here:
  "shaped g h w \<Longrightarrow> distinct (map snd ps) \<Longrightarrow> (p, (a, b)) \<in> set ps \<Longrightarrow>
     0 \<le> a \<Longrightarrow> a < h \<Longrightarrow> 0 \<le> b \<Longrightarrow> b < w \<Longrightarrow>
     fold (write_piece h w) ps g ! nat a ! nat b = p"
proof (induction ps arbitrary: g)
  case Nil
  then show ?case by simp
next
  case (Cons e ps)
  show ?case
  proof (cases "e = (p, (a, b))")
    case True
    from Cons.prems True have "(int (nat a), int (nat b)) \<notin> snd ` set ps"
      by auto
    with Cons.prems have "fold (write_piece h w) ps (write_piece h w e g) ! nat a ! nat b
                          = write_piece h w e g ! nat a ! nat b"
      by (intro fold_write_other shaped_write_piece) auto
    also from Cons.prems True have "\<dots> = p"
      by (simp add: write_piece_here)
    finally show ?thesis by simp
  next
    case False
    with Cons.prems have "fold (write_piece h w) ps (write_piece h w e g) ! nat a ! nat b = p"
      by (intro Cons.IH shaped_write_piece) auto
    then show ?thesis by simp
  qed
qed

lemma shaped_obstacle_grid: "shaped (obstacle_grid rows h w) (int h) (int w)"
  by (auto simp: shaped_def obstacle_grid_def)

lemma obstacle_grid_cell:
  "r < h \<Longrightarrow> c < w \<Longrightarrow>
     obstacle_grid rows h w ! r ! c = ''.'' \<or> obstacle_grid rows h w ! r ! c = ''X''"
  by (simp add: obstacle_grid_def)

lemma set_delete: "set (AList.delete k ps) = {e \<in> set ps. fst e \<noteq> k}"
  by (auto simp: AList.delete_eq)

lemma placed_ok_at:
  "placed_ok rows ps \<Longrightarrow> (p, cell) \<in> set ps \<Longrightarrow>
     0 \<le> fst cell \<and> 0 \<le> snd cell \<and> nat (fst cell) < length rows
     \<and> nat (snd cell) < length (rows ! nat (fst cell))
     \<and> fst (cell_contents (rows ! nat (fst cell) ! nat (snd cell))) = Some p"
  by (auto simp: placed_ok_def)

lemma placed_ok_positions:
  assumes "placed_ok rows ps"
  shows "distinct (map snd ps)"
proof -
  from assms have dk: "distinct (map fst ps)" by (simp add: placed_ok_def)
  then have "distinct ps" by (simp add: distinct_map)
  moreover have "inj_on snd (set ps)"
  proof (rule inj_onI)
    fix x y assume xy: "x \<in> set ps" "y \<in> set ps" "snd x = snd y"
    from xy(1) have "(fst x, snd x) \<in> set ps" by simp
    from placed_ok_at [OF assms this]
    have x: "fst (cell_contents (rows ! nat (fst (snd x)) ! nat (snd (snd x)))) = Some (fst x)"
      by simp
    from xy(2) have "(fst y, snd y) \<in> set ps" by simp
    from placed_ok_at [OF assms this]
    have y: "fst (cell_contents (rows ! nat (fst (snd y)) ! nat (snd (snd y)))) = Some (fst y)"
      by simp
    from x y xy(3) have "fst x = fst y" by simp
    with xy(3) show "x = y" by (simp add: prod_eq_iff)
  qed
  ultimately show ?thesis by (simp add: distinct_map)
qed


definition level_rows :: "string \<Rightarrow> string list list" where
  "level_rows s = map row_tokens (py_split_on (CHR '';'') (py_strip s))"

definition level_dicts :: "string \<Rightarrow> pdict \<times> pdict" where
  "level_dicts s = place_rows (max_width (level_rows s)) 0 (level_rows s) ([], [])"

lemma parse_level_eq:
  "parse_level s =
     \<lparr>grid = fold (write_piece (int (length (level_rows s))) (int (max_width (level_rows s))))
               (fst (level_dicts s))
               (obstacle_grid (level_rows s) (length (level_rows s)) (max_width (level_rows s))),
      pieces = AList.delete ''X'' (fst (level_dicts s)),
      targets = snd (level_dicts s),
      width = int (max_width (level_rows s)),
      height = int (length (level_rows s))\<rparr>"
  by (simp add: parse_level_def Let_def level_rows_def level_dicts_def py_split_on_nonempty
        split: prod.splits)

lemma level_dicts_ok: "placed_ok (level_rows s) (fst (level_dicts s))"
  unfolding level_dicts_def
  by (rule place_rows_ok [where before = "[]"])
     (simp_all add: placed_ok_Nil max_width_bound)

lemma parse_level_valid: "valid_state (parse_level s)"
proof -
  let ?rows = "level_rows s"
  let ?h = "length ?rows"
  let ?w = "max_width ?rows"
  let ?ps = "fst (level_dicts s)"
  let ?base = "obstacle_grid ?rows ?h ?w"
  let ?g = "fold (write_piece (int ?h) (int ?w)) ?ps ?base"
  have ok: "placed_ok ?rows ?ps" by (rule level_dicts_ok)
  have dp: "distinct (map snd ?ps)" using ok by (rule placed_ok_positions)
  have sh0: "shaped ?base (int ?h) (int ?w)" by (rule shaped_obstacle_grid)
  have sh: "shaped ?g (int ?h) (int ?w)" by (simp add: shaped_fold_write sh0)
  have rng: "0 \<le> a \<and> a < int ?h \<and> 0 \<le> b \<and> b < int ?w" if "(p, (a, b)) \<in> set ?ps" for p a b
  proof -
    from placed_ok_at [OF ok that] have a: "0 \<le> a" "0 \<le> b" "nat a < ?h"
      "nat b < length (?rows ! nat a)" by simp_all
    then have "?rows ! nat a \<in> set ?rows" by simp
    from max_width_bound [OF this] a show ?thesis by auto
  qed
  have c1: "length ?g = nat (int ?h)" using sh by (simp add: shaped_def)
  have c2: "\<forall>row \<in> set ?g. length row = nat (int ?w)" using sh by (simp add: shaped_def)
  have c3: "distinct (map fst (AList.delete ''X'' ?ps))"
    using ok by (simp add: placed_ok_def distinct_delete)
  have c4: "''X'' \<notin> fst ` set (AList.delete ''X'' ?ps)"
    by (rule delete_notin_dom)
  have c5: "\<forall>(p, cell) \<in> set (AList.delete ''X'' ?ps).
              (0 \<le> fst cell \<and> fst cell < int ?h \<and> 0 \<le> snd cell \<and> snd cell < int ?w)
              \<and> ?g ! nat (fst cell) ! nat (snd cell) = p"
  proof (clarify)
    fix p a b assume "(p, (a, b)) \<in> set (AList.delete ''X'' ?ps)"
    then have mem: "(p, (a, b)) \<in> set ?ps" by (simp add: set_delete)
    note r = rng [OF mem]
    from r fold_write_here [OF sh0 dp mem] have "?g ! nat a ! nat b = p" by simp
    with r show "(0 \<le> fst (a, b) \<and> fst (a, b) < int ?h \<and> 0 \<le> snd (a, b) \<and> snd (a, b) < int ?w)
              \<and> ?g ! nat (fst (a, b)) ! nat (snd (a, b)) = p"
      by simp
  qed
  have c6: "\<forall>r \<in> {0..<nat (int ?h)}. \<forall>c \<in> {0..<nat (int ?w)}.
           ?g ! r ! c = ''.'' \<or> ?g ! r ! c = ''X''
           \<or> (?g ! r ! c, (int r, int c)) \<in> set (AList.delete ''X'' ?ps)"
  proof (intro ballI)
    fix r c assume "r \<in> {0..<nat (int ?h)}" "c \<in> {0..<nat (int ?w)}"
    then have rc: "r < ?h" "c < ?w" by simp_all
    show "?g ! r ! c = ''.'' \<or> ?g ! r ! c = ''X''
           \<or> (?g ! r ! c, (int r, int c)) \<in> set (AList.delete ''X'' ?ps)"
    proof (cases "(int r, int c) \<in> snd ` set ?ps")
      case True
      then obtain q where q: "(q, (int r, int c)) \<in> set ?ps" by force
      from fold_write_here [OF sh0 dp q] rc have "?g ! r ! c = q" by simp
      with q show ?thesis by (cases "q = ''X''") (simp_all add: set_delete)
    next
      case False
      with fold_write_other [OF sh0, of r c ?ps] rc have "?g ! r ! c = ?base ! r ! c" by simp
      with obstacle_grid_cell [OF rc, of ?rows] show ?thesis by auto
    qed
  qed
  show ?thesis
    unfolding valid_state_def parse_level_eq [of s] game.select_convs in_grid_def fst_conv snd_conv
    by (intro conjI c1 c2 c3 c4 c5 c6)
qed

section \<open>Totality on well-formed states and reachable states (C8)\<close>

lemma slide_total:
  "shaped (grid g) (height g) (width g) \<Longrightarrow> \<exists>land. slide g p d r c = Inr land"
proof (induction g p d r c rule: slide.induct)
  case (1 g p d r c)
  show ?case
  proof (cases "in_grid g (r + dr d, c + dc d)")
    case False
    then show ?thesis by (subst slide_unfold) simp
  next
    case True
    with grid_get_in [OF "1.prems", of "r + dr d" "c + dc d"]
    have get: "grid_get (grid g) (r + dr d) (c + dc d)
               = Inr (grid g ! nat (r + dr d) ! nat (c + dc d))"
      by (simp add: in_grid_def)
    show ?thesis
    proof (cases "grid g ! nat (r + dr d) ! nat (c + dc d) = ''X''
                  \<or> blocked_by_other (pieces g) p (r + dr d, c + dc d)")
      case stop: True
      with True get show ?thesis by (subst slide_unfold) auto
    next
      case False
      with "1.IH" [OF refl refl _ get] True "1.prems"
      have "\<exists>land. slide g p d (r + dr d) (c + dc d) = Inr land" by simp
      with False True get show ?thesis by (subst slide_unfold) simp
    qed
  qed
qed

lemma moves_in_direction_total:
  assumes "shaped (grid g) (height g) (width g)"
  shows "\<exists>ms. moves_in_direction g p start d = Inr ms"
proof (cases "in_grid g (fst start + dr d, snd start + dc d)")
  case False
  then show ?thesis by (simp add: moves_in_direction_def Let_def)
next
  case True
  with grid_get_in [OF assms, of "fst start + dr d" "snd start + dc d"]
  have get: "grid_get (grid g) (fst start + dr d) (snd start + dc d)
             = Inr (grid g ! nat (fst start + dr d) ! nat (snd start + dc d))"
    by (simp add: in_grid_def)
  from slide_total [OF assms] obtain land where "slide g p d (fst start) (snd start) = Inr land"
    by blast
  with True get show ?thesis by (simp add: moves_in_direction_def Let_def)
qed

lemma get_possible_moves_total:
  assumes "valid_state g"
  shows "\<exists>ms. get_possible_moves g = Inr ms"
  unfolding get_possible_moves_def
proof (rule collect_total, rule ballI)
  fix x assume "x \<in> set (pieces g)"
  obtain p start where x: "x = (p, start)" by (cases x)
  have "\<exists>zs. collect (moves_in_direction g p start) directions = Inr zs"
    by (rule collect_total) (simp add: moves_in_direction_total valid_shaped [OF assms])
  with x show "\<exists>zs. (case x of (piece_char, start) \<Rightarrow>
                 collect (moves_in_direction g piece_char start) directions) = Inr zs"
    by simp
qed

lemma find_move_member:
  "find_move g p d pms = Some m \<Longrightarrow> m \<in> set pms"
  by (auto simp: find_move_def find_Some_iff intro: nth_mem)

text \<open>Outside the branch for the level of test 20 the replay loop returns on every
  well-formed state.\<close>

lemma replay_total: "valid_state g \<Longrightarrow> \<exists>b. replay encodes False g ms = Inr b"
proof (induction ms arbitrary: g)
  case Nil
  then show ?case by simp
next
  case (Cons m ms)
  obtain p d where m: "m = (p, d)" by (cases m)
  from get_possible_moves_total [OF Cons.prems] obtain pms where
    pms: "get_possible_moves g = Inr pms" by blast
  show ?case
  proof (cases "p \<in> fst ` set (pieces g)")
    case False
    with m show ?thesis by auto
  next
    case True
    show ?thesis
    proof (cases "find_move g p d pms")
      case None
      with m pms show ?thesis by auto
    next
      case (Some mv)
      obtain mp mpos md where mv: "mv = (mp, mpos, md)" by (cases mv)
      from find_move_member [OF Some] mv have "(mp, mpos, md) \<in> set pms" by simp
      from legal_move_valid [OF Cons.prems pms this] obtain g' where
        g': "apply_move g mp mpos = Inr g'" "valid_state g'" by blast
      from Cons.IH [OF g'(2)] obtain b where "replay encodes False g' ms = Inr b" by blast
      with m pms Some mv g' True show ?thesis by simp
    qed
  qed
qed

lemma reachable_valid:
  assumes "valid_state g0" "reachable g0 g"
  shows "valid_state g \<and> width g = width g0 \<and> height g = height g0 \<and> targets g = targets g0
         \<and> obstacles g = obstacles g0 \<and> map fst (pieces g) = map fst (pieces g0)"
  using assms(2)
proof (induction rule: reachable.induct)
  case start
  from assms(1) show ?case by simp
next
  case (step g ms p cell dname g')
  with legal_move_valid [of g ms p cell dname] show ?case by auto
qed

lemma obstacles_member:
  "(a, b) \<in> set (obstacles g) \<longleftrightarrow>
     (\<exists>r < length (grid g). \<exists>c < length (grid g ! r). a = int r \<and> b = int c \<and> grid g ! r ! c = ''X'')"
  by (auto simp: obstacles_def)

lemma valid_not_X:
  assumes "valid_state g" "(p, cell) \<in> set (pieces g)"
  shows "p \<noteq> ''X''"
proof -
  from assms(1) have "''X'' \<notin> fst ` set (pieces g)" by (simp add: valid_state_def)
  moreover from assms(2) have "p \<in> fst ` set (pieces g)" by force
  ultimately show ?thesis by blast
qed

lemma valid_piece_off_obstacles:
  assumes "valid_state g" "(p, cell) \<in> set (pieces g)"
  shows "cell \<notin> set (obstacles g)"
proof
  assume "cell \<in> set (obstacles g)"
  then have "(fst cell, snd cell) \<in> set (obstacles g)" by simp
  then obtain r c where rc: "cell = (int r, int c)" "grid g ! r ! c = ''X''"
    unfolding obstacles_member by (auto simp: prod_eq_iff)
  with valid_piece_at [OF assms] have "p = ''X''" by simp
  moreover from assms have "p \<noteq> ''X''" by (rule valid_not_X)
  ultimately show False by simp
qed

text \<open>
  C8.  In every state reached from a parsed level by applying possible moves, no piece
  stands on an obstacle cell and no two distinct pieces share a cell, and the obstacle
  cells, the targets, the width and the height are those of the parsed level.
\<close>

theorem reachable_states_stay_well_formed:
  assumes "reachable (parse_level level) g"
  shows "(\<forall>(p, cell) \<in> set (pieces g). cell \<notin> set (obstacles g))
         \<and> (\<forall>p q cell. (p, cell) \<in> set (pieces g) \<and> (q, cell) \<in> set (pieces g) \<longrightarrow> p = q)
         \<and> obstacles g = obstacles (parse_level level)
         \<and> targets g = targets (parse_level level)
         \<and> width g = width (parse_level level)
         \<and> height g = height (parse_level level)"
proof -
  from reachable_valid [OF parse_level_valid assms]
  have v: "valid_state g" and same: "width g = width (parse_level level)"
    "height g = height (parse_level level)" "targets g = targets (parse_level level)"
    "obstacles g = obstacles (parse_level level)"
    by simp_all
  have "\<forall>(p, cell) \<in> set (pieces g). cell \<notin> set (obstacles g)"
    using valid_piece_off_obstacles [OF v] by blast
  moreover have "\<forall>p q cell. (p, cell) \<in> set (pieces g) \<and> (q, cell) \<in> set (pieces g) \<longrightarrow> p = q"
    using valid_piece_at [OF v] by blast
  ultimately show ?thesis using same by simp
qed

theorem reachable_states_stay_well_formed_witness:
  "reachable (parse_level ''A . .;X . .;b a .'')
     \<lparr>grid = [[''.'', ''.'', ''A''], [''X'', ''.'', ''.''], [''.'', ''.'', ''.'']],
      pieces = [(''A'', (0, 2))], targets = [(''b'', (2, 0)), (''a'', (2, 1))],
      width = 3, height = 3\<rparr>
   \<and> (0, 2) \<notin> set (obstacles
         \<lparr>grid = [[''.'', ''.'', ''A''], [''X'', ''.'', ''.''], [''.'', ''.'', ''.'']],
          pieces = [(''A'', (0, 2))], targets = [(''b'', (2, 0)), (''a'', (2, 1))],
          width = 3, height = 3\<rparr>)
   \<and> obstacles
         \<lparr>grid = [[''.'', ''.'', ''A''], [''X'', ''.'', ''.''], [''.'', ''.'', ''.'']],
          pieces = [(''A'', (0, 2))], targets = [(''b'', (2, 0)), (''a'', (2, 1))],
          width = 3, height = 3\<rparr>
       = obstacles (parse_level ''A . .;X . .;b a .'')"
proof -
  let ?start = "parse_level ''A . .;X . .;b a .''"
  let ?after = "\<lparr>grid = [[''.'', ''.'', ''A''], [''X'', ''.'', ''.''], [''.'', ''.'', ''.'']],
      pieces = [(''A'', (0, 2))], targets = [(''b'', (2, 0)), (''a'', (2, 1))],
      width = 3, height = 3\<rparr>"
  have ms: "get_possible_moves ?start = Inr [(''A'', (0, 2), ''right'')]"
    by code_simp
  have app: "apply_move ?start ''A'' (0, 2) = Inr ?after"
    by code_simp
  have r: "reachable ?start ?after"
    by (rule reachable.step [OF reachable.start ms _ app]) simp
  note t = reachable_states_stay_well_formed [OF r]
  from t have "\<forall>(p, cell) \<in> set (pieces ?after). cell \<notin> set (obstacles ?after)"
    by (rule conjunct1)
  then have off: "(0, 2) \<notin> set (obstacles ?after)"
    by simp
  from t have same: "obstacles ?after = obstacles ?start"
    by blast
  from r off same show ?thesis
    by (intro conjI)
qed

section \<open>Applying a move (C9, C10)\<close>

lemma obstacles_in_grid:
  assumes "valid_state g" "in_grid g cell"
  shows "cell \<in> set (obstacles g) \<longleftrightarrow> grid g ! nat (fst cell) ! nat (snd cell) = ''X''"
proof -
  have sh: "shaped (grid g) (height g) (width g)" using assms(1) by (rule valid_shaped)
  from assms(2) have r: "nat (fst cell) < length (grid g)"
    using sh by (auto simp: in_grid_def shaped_def)
  then have "grid g ! nat (fst cell) \<in> set (grid g)" by simp
  with sh assms(2) have c: "nat (snd cell) < length (grid g ! nat (fst cell))"
    by (auto simp: in_grid_def shaped_def)
  from assms(2) have cell: "cell = (int (nat (fst cell)), int (nat (snd cell)))"
    by (auto simp: in_grid_def prod_eq_iff)
  show ?thesis
  proof
    assume "cell \<in> set (obstacles g)"
    then have "(fst cell, snd cell) \<in> set (obstacles g)" by simp
    then show "grid g ! nat (fst cell) ! nat (snd cell) = ''X''"
      unfolding obstacles_member by auto
  next
    assume "grid g ! nat (fst cell) ! nat (snd cell) = ''X''"
    with r c have "(int (nat (fst cell)), int (nat (snd cell))) \<in> set (obstacles g)"
      unfolding obstacles_member by blast
    with cell show "cell \<in> set (obstacles g)" by simp
  qed
qed

lemma obstacles_moved_any:
  assumes v: "valid_state g" and p: "(p, start) \<in> set (pieces g)"
    and ing: "in_grid g land" and nox: "grid g ! nat (fst land) ! nat (snd land) \<noteq> ''X''"
  shows "obstacles (moved g p start land) = obstacles g"
proof -
  let ?g = "moved g p start land"
  from valid_piece_at [OF v p] have st: "in_grid g start"
    "grid g ! nat (fst start) ! nat (snd start) = p" by simp_all
  have px: "p \<noteq> ''X''" using v p by (rule valid_not_X)
  have sh: "shaped (grid g) (height g) (width g)" using v by (rule valid_shaped)
  have sh': "shaped (grid ?g) (height g) (width g)"
    unfolding moved_def game.select_convs by (intro shaped_put_cell sh)
  have len: "length (grid ?g) = length (grid g)"
    using sh sh' by (simp add: shaped_def)
  have row: "length (grid ?g ! r) = length (grid g ! r)" if "r < length (grid g)" for r
    using sh sh' that len by (simp add: shaped_def)
  have same: "(grid ?g ! r ! c = ''X'') = (grid g ! r ! c = ''X'')"
    if "r < length (grid g)" "c < length (grid g ! r)" for r c
  proof -
    from that sh have rng: "r < nat (height g)" "c < nat (width g)"
      by (auto simp: shaped_def)
    from ing st(1) have idx: "(int r, int c) = land \<Longrightarrow> r = nat (fst land) \<and> c = nat (snd land)"
      "(int r, int c) = start \<Longrightarrow> r = nat (fst start) \<and> c = nat (snd start)"
      by auto
    note mc = moved_cell [OF v st(1) ing rng, of p]
    show ?thesis
    proof (cases "(int r, int c) = land")
      case True
      with mc px nox idx(1) show ?thesis by simp
    next
      case nl: False
      show ?thesis
      proof (cases "(int r, int c) = start")
        case True
        with nl mc px st(2) idx(2) show ?thesis by simp
      next
        case False
        with nl mc show ?thesis by simp
      qed
    qed
  qed
  have inner: "concat (map (\<lambda>c. if grid ?g ! r ! c = ''X'' then [(int r, int c)] else [])
                 [0..<length (grid ?g ! r)])
        = concat (map (\<lambda>c. if grid g ! r ! c = ''X'' then [(int r, int c)] else [])
                 [0..<length (grid g ! r)])" if "r < length (grid g)" for r
  proof -
    have "map (\<lambda>c. if grid ?g ! r ! c = ''X'' then [(int r, int c)] else [])
                 [0..<length (grid ?g ! r)]
          = map (\<lambda>c. if grid g ! r ! c = ''X'' then [(int r, int c)] else [])
                 [0..<length (grid g ! r)]"
      unfolding row [OF that]
      by (rule map_cong [OF refl]) (simp add: same [OF that])
    then show ?thesis by (rule arg_cong [where f = concat])
  qed
  have "map (\<lambda>r. concat (map (\<lambda>c. if grid ?g ! r ! c = ''X'' then [(int r, int c)] else [])
                 [0..<length (grid ?g ! r)])) [0..<length (grid g)]
        = map (\<lambda>r. concat (map (\<lambda>c. if grid g ! r ! c = ''X'' then [(int r, int c)] else [])
                 [0..<length (grid g ! r)])) [0..<length (grid g)]"
    by (rule map_cong [OF refl]) (simp add: inner)
  then show ?thesis
    unfolding obstacles_def len by (rule arg_cong [where f = concat])
qed

lemma apply_move_absent:
  assumes "piece_char \<notin> fst ` set (pieces g)"
  shows "apply_move g piece_char new_pos = Inl KeyError"
proof -
  from assms have "map_of (pieces g) piece_char = None"
    by (simp add: map_of_eq_None_iff)
  then show ?thesis by (simp add: apply_move_def)
qed

lemma apply_move_frame:
  assumes v: "valid_state g" and p: "(p, start) \<in> set (pieces g)"
    and ing: "in_grid g d" and free: "d \<notin> set (obstacles g)"
  shows "\<exists>g'. apply_move g p d = Inr g' \<and> map_of (pieces g') p = Some d
           \<and> (\<forall>q. q \<noteq> p \<longrightarrow> map_of (pieces g') q = map_of (pieces g) q)
           \<and> targets g' = targets g \<and> width g' = width g \<and> height g' = height g
           \<and> obstacles g' = obstacles g"
proof -
  from obstacles_in_grid [OF v ing] free
  have nox: "grid g ! nat (fst d) ! nat (snd d) \<noteq> ''X''" by simp
  have "apply_move g p d = Inr (moved g p start d)"
    using v p ing by (rule apply_move_in_grid)
  moreover have "obstacles (moved g p start d) = obstacles g"
    using v p ing nox by (rule obstacles_moved_any)
  ultimately show ?thesis
    by (simp add: moved_def update_conv')
qed

text \<open>
  The states the class can build.  \<open>apply_move\<close> indexes the grid at the old cell of the
  piece and at the destination, and a Python index may be negative: a cell is indexable
  when its row is in \<open>-height \<le> r < height\<close> and its column in \<open>-width \<le> c < width\<close>.  A
  state is framed when its grid has \<open>height\<close> rows of \<open>width\<close> cells and every piece is on
  an indexable cell.  Nothing is asked of what the cells hold: two pieces may share a
  cell, a piece may stand where the grid holds \<open>X\<close> or \<open>.\<close>.
\<close>

definition indexable :: "game \<Rightarrow> pos \<Rightarrow> bool" where
  "indexable g cell \<longleftrightarrow>
     - height g \<le> fst cell \<and> fst cell < height g \<and> - width g \<le> snd cell \<and> snd cell < width g"

definition framed :: "game \<Rightarrow> bool" where
  "framed g \<longleftrightarrow>
     shaped (grid g) (height g) (width g) \<and> list_all (\<lambda>(p, cell). indexable g cell) (pieces g)"

text \<open>The states obtained from a parsed level by calls of \<open>apply_move\<close> that return, with
  any piece and any destination.\<close>

inductive built :: "game \<Rightarrow> bool" where
  parsed: "built (parse_level level_string)"
| applied: "built g \<Longrightarrow> apply_move g piece_char new_pos = Inr g' \<Longrightarrow> built g'"

lemma py_index_some:
  "py_index xs i = Inr j \<Longrightarrow> j < length xs \<and> - int (length xs) \<le> i \<and> i < int (length xs)"
  by (auto simp: py_index_def split: if_splits)

lemma py_index_ok:
  "- int (length xs) \<le> i \<Longrightarrow> i < int (length xs) \<Longrightarrow> \<exists>j. py_index xs i = Inr j \<and> j < length xs"
  by (auto simp: py_index_def)

lemma grid_set_shaped:
  assumes "shaped g h w" "grid_set g r c v = Inr g'"
  shows "shaped g' h w \<and> - h \<le> r \<and> r < h \<and> - w \<le> c \<and> c < w"
proof -
  from assms(2) obtain i j where i: "py_index g r = Inr i"
    and j: "py_index (g ! i) c = Inr j" and g': "g' = g[i := (g ! i)[j := v]]"
    by (auto simp: grid_set_def py_set_def split: sum.splits)
  from py_index_some [OF i] have ir: "i < length g" "- int (length g) \<le> r" "r < int (length g)"
    by simp_all
  then have "g ! i \<in> set g" by simp
  with assms(1) have len: "length (g ! i) = nat w" by (simp add: shaped_def)
  from py_index_some [OF j] len have jc: "- int (nat w) \<le> c" "c < int (nat w)" by simp_all
  from assms(1) have lg: "length g = nat h" by (simp add: shaped_def)
  have "shaped g' h w"
    unfolding shaped_def g'
  proof (intro conjI ballI)
    show "length (g[i := (g ! i)[j := v]]) = nat h" using lg by simp
  next
    fix row assume "row \<in> set (g[i := (g ! i)[j := v]])"
    then have "row \<in> insert ((g ! i)[j := v]) (set g)"
      using set_update_subset_insert by fastforce
    with assms(1) len show "length row = nat w" by (auto simp: shaped_def)
  qed
  moreover from ir lg have "- h \<le> r \<and> r < h" by linarith
  moreover from jc have "- w \<le> c \<and> c < w" by linarith
  ultimately show ?thesis by simp
qed

lemma grid_set_ok:
  assumes "shaped g h w" "- h \<le> r" "r < h" "- w \<le> c" "c < w"
  shows "\<exists>g'. grid_set g r c v = Inr g'"
proof -
  from assms have lg: "length g = nat h" by (simp add: shaped_def)
  with assms have "- int (length g) \<le> r" "r < int (length g)" by linarith+
  from py_index_ok [OF this] obtain i where i: "py_index g r = Inr i" "i < length g" by blast
  then have "g ! i \<in> set g" by simp
  with assms(1) have len: "length (g ! i) = nat w" by (simp add: shaped_def)
  with assms have "- int (length (g ! i)) \<le> c" "c < int (length (g ! i))" by linarith+
  from py_index_ok [OF this] obtain j where "py_index (g ! i) c = Inr j" by blast
  with i show ?thesis by (simp add: grid_set_def py_set_def)
qed

lemma update_set_subset: "set (AList.update k v al) \<subseteq> insert (k, v) (set al)"
  by (induction al) auto

lemma apply_move_framed:
  assumes "framed g" "apply_move g piece_char new_pos = Inr g'"
  shows "framed g'"
proof -
  from assms(2) obtain old_r old_c g1 where
    g1: "grid_set (grid g) old_r old_c ''.'' = Inr g1"
    and g2: "grid_set g1 (fst new_pos) (snd new_pos) piece_char = Inr (grid g')"
    and rest: "pieces g' = AList.update piece_char new_pos (pieces g)"
      "width g' = width g" "height g' = height g"
    by (auto simp: apply_move_def split: option.splits sum.splits prod.splits)
  from assms(1) have sh: "shaped (grid g) (height g) (width g)" by (simp add: framed_def)
  from grid_set_shaped [OF sh g1] have sh1: "shaped g1 (height g) (width g)" by simp
  from grid_set_shaped [OF sh1 g2] have sh2: "shaped (grid g') (height g) (width g)"
    and new: "indexable g new_pos" by (simp_all add: indexable_def)
  have "indexable g cell" if "(p, cell) \<in> set (pieces g')" for p cell
  proof -
    from that rest(1) update_set_subset [of piece_char new_pos "pieces g"]
    have "(p, cell) = (piece_char, new_pos) \<or> (p, cell) \<in> set (pieces g)" by auto
    with new assms(1) show ?thesis by (auto simp: framed_def list_all_iff)
  qed
  with sh2 rest show ?thesis
    by (auto simp: framed_def list_all_iff indexable_def)
qed

lemma valid_framed: "valid_state g \<Longrightarrow> framed g"
proof -
  assume v: "valid_state g"
  have "indexable g cell" if "(p, cell) \<in> set (pieces g)" for p cell
    using valid_piece_at [OF v that] by (simp add: indexable_def in_grid_def)
  with valid_shaped [OF v] show ?thesis by (auto simp: framed_def list_all_iff)
qed

lemma built_framed: "built g \<Longrightarrow> framed g"
proof (induction rule: built.induct)
  case (parsed level_string)
  show ?case by (rule valid_framed) (rule parse_level_valid)
next
  case (applied g piece_char new_pos g')
  then show ?case using apply_move_framed by blast
qed

lemma apply_move_framed_returns:
  assumes f: "framed g" and p: "piece_char \<in> fst ` set (pieces g)" and d: "indexable g new_pos"
  shows "\<exists>g'. apply_move g piece_char new_pos = Inr g'
              \<and> pieces g' = AList.update piece_char new_pos (pieces g)"
proof -
  from p obtain start where look: "map_of (pieces g) piece_char = Some start"
    by (cases "map_of (pieces g) piece_char") (auto simp: map_of_eq_None_iff)
  then have "(piece_char, start) \<in> set (pieces g)" by (rule map_of_SomeD)
  with f have st: "indexable g start" by (auto simp: framed_def list_all_iff)
  from f have sh: "shaped (grid g) (height g) (width g)" by (simp add: framed_def)
  from st grid_set_ok [OF sh, of "fst start" "snd start" "''.''"] obtain g1 where
    g1: "grid_set (grid g) (fst start) (snd start) ''.'' = Inr g1"
    by (auto simp: indexable_def)
  from grid_set_shaped [OF sh g1] have sh1: "shaped g1 (height g) (width g)" by simp
  from d grid_set_ok [OF sh1, of "fst new_pos" "snd new_pos" piece_char] obtain g2 where
    g2: "grid_set g1 (fst new_pos) (snd new_pos) piece_char = Inr g2"
    by (auto simp: indexable_def)
  from look g1 g2 show ?thesis
    by (cases start) (simp add: apply_move_def)
qed

text \<open>
  C10.  \<open>apply_move\<close> checks nothing about its destination.  Every state the class can
  build, from a parsed level by calls of \<open>apply_move\<close> that return (legal moves or not),
  is framed; and on every framed state, for a piece that is present and any destination
  inside the grid (an obstacle cell, the cell of another piece or a cell no slide reaches
  included), \<open>apply_move\<close> succeeds and returns a state, framed again, with the piece at
  that destination.  Nothing is asked of the state but its frame: it may be one that an
  earlier unchecked call has left with two pieces on one cell.
\<close>

theorem apply_move_checks_nothing:
  "(built g \<longrightarrow> framed g)
   \<and> (framed g \<and> piece_char \<in> fst ` set (pieces g) \<and> in_grid g new_pos \<longrightarrow>
        (\<exists>g'. apply_move g piece_char new_pos = Inr g'
               \<and> map_of (pieces g') piece_char = Some new_pos
               \<and> framed g'))"
proof (intro conjI impI)
  assume "built g"
  then show "framed g" by (rule built_framed)
next
  assume a: "framed g \<and> piece_char \<in> fst ` set (pieces g) \<and> in_grid g new_pos"
  then have "indexable g new_pos" by (simp add: indexable_def in_grid_def)
  with a apply_move_framed_returns [of g piece_char new_pos] obtain g' where
    g': "apply_move g piece_char new_pos = Inr g'"
      "pieces g' = AList.update piece_char new_pos (pieces g)" by blast
  from a g'(1) have "framed g'" using apply_move_framed by blast
  with g' show "\<exists>g'. apply_move g piece_char new_pos = Inr g'
               \<and> map_of (pieces g') piece_char = Some new_pos
               \<and> framed g'"
    by (simp add: update_conv')
qed

theorem apply_move_checks_nothing_witness:
  "built \<lparr>grid = [[''.'', ''X'', ''A'']], pieces = [(''A'', (0, 2)), (''B'', (0, 2))],
           targets = [], width = 3, height = 1\<rparr>
   \<and> \<not> valid_state \<lparr>grid = [[''.'', ''X'', ''A'']], pieces = [(''A'', (0, 2)), (''B'', (0, 2))],
           targets = [], width = 3, height = 1\<rparr>
   \<and> framed \<lparr>grid = [[''.'', ''X'', ''A'']], pieces = [(''A'', (0, 2)), (''B'', (0, 2))],
           targets = [], width = 3, height = 1\<rparr>
   \<and> (0, 1) \<in> set (obstacles \<lparr>grid = [[''.'', ''X'', ''A'']],
           pieces = [(''A'', (0, 2)), (''B'', (0, 2))], targets = [], width = 3, height = 1\<rparr>)
   \<and> (\<exists>g'. apply_move \<lparr>grid = [[''.'', ''X'', ''A'']],
                 pieces = [(''A'', (0, 2)), (''B'', (0, 2))], targets = [], width = 3,
                 height = 1\<rparr> ''B'' (0, 1) = Inr g'
              \<and> map_of (pieces g') ''B'' = Some (0, 1) \<and> framed g')
   \<and> map_of (pieces (parse_level ''A X B'')) ''B'' = Some (0, 2)
   \<and> (\<exists>g'. apply_move (parse_level ''A X B'') ''A'' (0, 2) = Inr g'
              \<and> map_of (pieces g') ''A'' = Some (0, 2) \<and> framed g')"
proof -
  let ?L = "parse_level ''A X B''"
  let ?S = "\<lparr>grid = [[''.'', ''X'', ''A'']], pieces = [(''A'', (0, 2)), (''B'', (0, 2))],
             targets = [], width = 3, height = 1\<rparr>"
  have first: "apply_move ?L ''A'' (0, 2) = Inr ?S" by code_simp
  have bl: "built ?L" by (rule built.parsed)
  from bl first have bs: "built ?S" by (rule built.applied)
  have nv: "\<not> valid_state ?S" by code_simp
  have o: "(0, 1) \<in> set (obstacles ?S)" by code_simp
  have pb: "''B'' \<in> fst ` set (pieces ?S)" by simp
  have ib: "in_grid ?S (0, 1)" by (simp add: in_grid_def)
  have b: "map_of (pieces ?L) ''B'' = Some (0, 2)" by code_simp
  have pa: "''A'' \<in> fst ` set (pieces ?L)" by code_simp
  have ia: "in_grid ?L (0, 2)" by code_simp
  note s = apply_move_checks_nothing [where g = ?S and piece_char = "''B''"
             and new_pos = "(0, 1)"]
  note l = apply_move_checks_nothing [where g = ?L and piece_char = "''A''"
             and new_pos = "(0, 2)"]
  from s bs have fs: "framed ?S" by blast
  from s fs pb ib have second: "\<exists>g'. apply_move ?S ''B'' (0, 1) = Inr g'
              \<and> map_of (pieces g') ''B'' = Some (0, 1) \<and> framed g'" by blast
  from l bl have fl: "framed ?L" by blast
  from l fl pa ia have third: "\<exists>g'. apply_move ?L ''A'' (0, 2) = Inr g'
              \<and> map_of (pieces g') ''A'' = Some (0, 2) \<and> framed g'" by blast
  from bs nv fs o second b third show ?thesis by (intro conjI)
qed

section \<open>The object store: apply_move leaves its state as it was\<close>

text \<open>
  \<open>apply_move\<close> on the objects themselves.  A row of the grid, the list of rows and a
  dict are objects of a store and are named by their index in it; a game object holds the
  references of its grid, its pieces and its targets.  \<open>[row[:] for row in self.grid]\<close>
  allocates a copy of every row and a list of the copies, \<open>self.pieces.copy()\<close> a copy of
  the dict; the two item assignments and the dict assignment write to the copies; the
  targets dict is shared with the new object.
\<close>

record store =
  row_objs :: "string list list"
  list_objs :: "nat list list"
  dict_objs :: "pdict list"

record game_obj =
  grid_ref :: nat
  pieces_ref :: nat
  targets_ref :: nat
  obj_width :: int
  obj_height :: int

definition read_game :: "store \<Rightarrow> game_obj \<Rightarrow> game" where
  "read_game st ob =
     \<lparr>grid = map (\<lambda>a. row_objs st ! a) (list_objs st ! grid_ref ob),
      pieces = dict_objs st ! pieces_ref ob,
      targets = dict_objs st ! targets_ref ob,
      width = obj_width ob, height = obj_height ob\<rparr>"

definition refs_ok :: "store \<Rightarrow> game_obj \<Rightarrow> bool" where
  "refs_ok st ob \<longleftrightarrow>
     grid_ref ob < length (list_objs st)
     \<and> list_all (\<lambda>a. a < length (row_objs st)) (list_objs st ! grid_ref ob)
     \<and> pieces_ref ob < length (dict_objs st)
     \<and> targets_ref ob < length (dict_objs st)"

definition set_item :: "store \<Rightarrow> nat \<Rightarrow> int \<Rightarrow> int \<Rightarrow> string \<Rightarrow> error + store" where
  "set_item st lst r c v =
     (case py_index (list_objs st ! lst) r of
        Inl e \<Rightarrow> Inl e
      | Inr i \<Rightarrow>
          (let a = list_objs st ! lst ! i
           in case py_set (row_objs st ! a) c v of
                Inl e \<Rightarrow> Inl e
              | Inr row \<Rightarrow> Inr (st\<lparr>row_objs := (row_objs st)[a := row]\<rparr>)))"

definition copy_grid :: "store \<Rightarrow> nat \<Rightarrow> store \<times> nat" where
  "copy_grid st lst =
     (let old_rows = list_objs st ! lst;
          n = length (row_objs st)
      in (st\<lparr>row_objs := row_objs st @ map (\<lambda>a. row_objs st ! a) old_rows,
             list_objs := list_objs st @ [[n..<n + length old_rows]]\<rparr>,
          length (list_objs st)))"

definition copy_dict :: "store \<Rightarrow> nat \<Rightarrow> store \<times> nat" where
  "copy_dict st d = (st\<lparr>dict_objs := dict_objs st @ [dict_objs st ! d]\<rparr>, length (dict_objs st))"

definition apply_move_store ::
  "store \<Rightarrow> game_obj \<Rightarrow> string \<Rightarrow> pos \<Rightarrow> store \<times> (error + game_obj)" where
  "apply_move_store st self piece_char new_pos =
     (let (st1, new_grid) = copy_grid st (grid_ref self);
          (st2, new_pieces) = copy_dict st1 (pieces_ref self)
      in case map_of (dict_objs st2 ! pieces_ref self) piece_char of
           None \<Rightarrow> (st2, Inl KeyError)
         | Some (old_r, old_c) \<Rightarrow>
             (case set_item st2 new_grid old_r old_c ''.'' of
                Inl e \<Rightarrow> (st2, Inl e)
              | Inr st3 \<Rightarrow>
                  (case set_item st3 new_grid (fst new_pos) (snd new_pos) piece_char of
                     Inl e \<Rightarrow> (st3, Inl e)
                   | Inr st4 \<Rightarrow>
                       (st4\<lparr>dict_objs := (dict_objs st4)[new_pieces :=
                               AList.update piece_char new_pos (dict_objs st4 ! new_pieces)]\<rparr>,
                        Inr \<lparr>grid_ref = new_grid, pieces_ref = new_pieces,
                             targets_ref = targets_ref self,
                             obj_width = obj_width self, obj_height = obj_height self\<rparr>))))"


text \<open>The store after the copies: the object \<open>self\<close> still reads as \<open>g\<close>, all its rows
  are below \<open>n\<close>, and the list \<open>ng\<close> holds the \<open>k\<close> fresh rows from \<open>n\<close> on, which read
  as \<open>fresh\<close>.\<close>

definition copied ::
  "store \<Rightarrow> game_obj \<Rightarrow> game \<Rightarrow> nat \<Rightarrow> nat \<Rightarrow> nat \<Rightarrow> string list list \<Rightarrow> bool" where
  "copied st self g n ng k fresh \<longleftrightarrow>
     read_game st self = g
     \<and> (\<forall>a \<in> set (list_objs st ! grid_ref self). a < n)
     \<and> grid_ref self \<noteq> ng
     \<and> list_objs st ! ng = [n..<n + k]
     \<and> n + k \<le> length (row_objs st)
     \<and> map (\<lambda>a. row_objs st ! a) [n..<n + k] = fresh"

lemma set_item_copied:
  assumes c: "copied st self g n ng k fresh"
  shows "case grid_set fresh r c v of
           Inl e \<Rightarrow> set_item st ng r c v = Inl e
         | Inr fresh' \<Rightarrow>
             (\<exists>st'. set_item st ng r c v = Inr st' \<and> copied st' self g n ng k fresh'
                    \<and> dict_objs st' = dict_objs st \<and> list_objs st' = list_objs st)"
proof -
  from c have lst: "list_objs st ! ng = [n..<n + k]" and len: "n + k \<le> length (row_objs st)"
    and fresh: "map (\<lambda>a. row_objs st ! a) [n..<n + k] = fresh"
    and low: "\<forall>a \<in> set (list_objs st ! grid_ref self). a < n"
    and rd: "read_game st self = g" and ne: "grid_ref self \<noteq> ng"
    by (simp_all add: copied_def)
  from fresh have lf: "length fresh = k" by auto
  have idx: "py_index [n..<n + k] r = py_index fresh r"
    by (simp add: py_index_def lf)
  show ?thesis
  proof (cases "py_index fresh r")
    case (Inl e)
    with idx lst show ?thesis by (simp add: grid_set_def set_item_def)
  next
    case (Inr i)
    then have i: "i < k" by (auto simp: py_index_def lf split: if_splits)
    then have at: "[n..<n + k] ! i = n + i" by simp
    from i fresh have fi: "fresh ! i = row_objs st ! (n + i)" by auto
    show ?thesis
    proof (cases "py_set (fresh ! i) c v")
      case (Inl e)
      with Inr idx lst at fi show ?thesis by (simp add: grid_set_def set_item_def)
    next
      case row: (Inr row)
      let ?st = "st\<lparr>row_objs := (row_objs st)[n + i := row]\<rparr>"
      from Inr row idx lst at fi have res: "set_item st ng r c v = Inr ?st"
        by (simp add: grid_set_def set_item_def)
      have keep: "map ((!) ((row_objs st)[n + i := row])) (list_objs st ! grid_ref self)
                  = map ((!) (row_objs st)) (list_objs st ! grid_ref self)"
        using low by (intro map_cong [OF refl]) auto
      have "read_game ?st self = read_game st self"
        by (simp add: read_game_def keep)
      with rd have rd': "read_game ?st self = g" by simp
      have fresh': "map (\<lambda>a. (row_objs st)[n + i := row] ! a) [n..<n + k] = fresh[i := row]"
        using fresh i len by (intro nth_equalityI) (auto simp: nth_list_update)
      have "copied ?st self g n ng k (fresh[i := row])"
        unfolding copied_def using rd' low ne lst len fresh' by simp
      with res Inr row show ?thesis by (simp add: grid_set_def)
    qed
  qed
qed

lemma copies_copied:
  assumes ok: "refs_ok st self"
    and cg: "copy_grid st (grid_ref self) = (st1, ng)"
    and cd: "copy_dict st1 (pieces_ref self) = (st2, np)"
  shows "copied st2 self (read_game st self) (length (row_objs st)) ng
           (length (list_objs st ! grid_ref self)) (grid (read_game st self))"
    and "np = length (dict_objs st)" and "length (dict_objs st2) = Suc np"
    and "dict_objs st2 ! np = pieces (read_game st self)"
proof -
  let ?old = "list_objs st ! grid_ref self"
  let ?n = "length (row_objs st)"
  from ok have g: "grid_ref self < length (list_objs st)"
    and low: "\<forall>a \<in> set ?old. a < ?n"
    and pr: "pieces_ref self < length (dict_objs st)"
    and tr: "targets_ref self < length (dict_objs st)"
    by (simp_all add: refs_ok_def list_all_iff)
  from cg have st1: "st1 = st\<lparr>row_objs := row_objs st @ map (\<lambda>a. row_objs st ! a) ?old,
             list_objs := list_objs st @ [[?n..<?n + length ?old]]\<rparr>"
    and ng: "ng = length (list_objs st)"
    by (simp_all add: copy_grid_def Let_def)
  from cd have st2: "st2 = st1\<lparr>dict_objs := dict_objs st1 @ [dict_objs st1 ! pieces_ref self]\<rparr>"
    and np: "np = length (dict_objs st1)"
    by (simp_all add: copy_dict_def)
  from np st1 show "np = length (dict_objs st)" by simp
  from np st2 show "length (dict_objs st2) = Suc np" by simp
  from np st2 st1 pr show "dict_objs st2 ! np = pieces (read_game st self)"
    by (simp add: read_game_def)
  have rows: "map (\<lambda>a. row_objs st2 ! a) ?old = map (\<lambda>a. row_objs st ! a) ?old"
    using low by (intro map_cong [OF refl]) (simp add: st2 st1 nth_append)
  have rd: "read_game st2 self = read_game st self"
    using g pr tr rows by (simp add: read_game_def st2 st1 nth_append)
  have fresh: "map (\<lambda>a. row_objs st2 ! a) [?n..<?n + length ?old] = grid (read_game st self)"
    by (intro nth_equalityI) (auto simp: st2 st1 read_game_def nth_append)
  have old: "list_objs st2 ! grid_ref self = ?old"
    using g by (simp add: st2 st1 nth_append)
  have new: "list_objs st2 ! ng = [?n..<?n + length ?old]"
    by (simp add: st2 st1 ng)
  have len: "?n + length ?old \<le> length (row_objs st2)"
    by (simp add: st2 st1)
  from g ng have ne: "grid_ref self \<noteq> ng" by simp
  show "copied st2 self (read_game st self) ?n ng (length ?old) (grid (read_game st self))"
    unfolding copied_def old
    by (intro conjI rd low ne new len fresh)
qed


lemma apply_move_store_refines:
  assumes ok: "refs_ok st self" and run: "apply_move_store st self p d = (st', res)"
  shows "read_game st' self = read_game st self
         \<and> (case res of
               Inl e \<Rightarrow> apply_move (read_game st self) p d = Inl e
             | Inr ob \<Rightarrow> apply_move (read_game st self) p d = Inr (read_game st' ob))"
proof -
  let ?g = "read_game st self"
  let ?n = "length (row_objs st)"
  let ?k = "length (list_objs st ! grid_ref self)"
  obtain st1 ng where cg: "copy_grid st (grid_ref self) = (st1, ng)" by (cases "copy_grid st (grid_ref self)")
  obtain st2 np where cd: "copy_dict st1 (pieces_ref self) = (st2, np)" by (cases "copy_dict st1 (pieces_ref self)")
  note cc = copies_copied [OF ok cg cd]
  from cc(1) have rd2: "read_game st2 self = ?g" by (simp add: copied_def)
  then have "pieces (read_game st2 self) = pieces ?g" by simp
  then have look: "dict_objs st2 ! pieces_ref self = pieces ?g" by (simp add: read_game_def)
  from ok cc(2) have below: "pieces_ref self < np" "targets_ref self < np"
    by (simp_all add: refs_ok_def)
  show ?thesis
  proof (cases "map_of (pieces ?g) p")
    case None
    with run cg cd look have "st' = st2" "res = Inl KeyError"
      by (simp_all add: apply_move_store_def)
    with None rd2 show ?thesis by (simp add: apply_move_def)
  next
    case (Some old)
    obtain old_r old_c where old: "old = (old_r, old_c)" by (cases old)
    note one = set_item_copied [OF cc(1), of old_r old_c "''.''"]
    show ?thesis
    proof (cases "grid_set (grid ?g) old_r old_c ''.''")
      case (Inl e)
      with one have "set_item st2 ng old_r old_c ''.'' = Inl e" by simp
      with run cg cd look Some old have "st' = st2" "res = Inl e"
        by (simp_all add: apply_move_store_def)
      with Some old Inl rd2 show ?thesis by (simp add: apply_move_def)
    next
      case g1: (Inr g1)
      with one obtain st3 where st3: "set_item st2 ng old_r old_c ''.'' = Inr st3"
        "copied st3 self ?g ?n ng ?k g1" "dict_objs st3 = dict_objs st2"
        by auto
      from st3(2) have rd3: "read_game st3 self = ?g" by (simp add: copied_def)
      note two = set_item_copied [OF st3(2), of "fst d" "snd d" p]
      show ?thesis
      proof (cases "grid_set g1 (fst d) (snd d) p")
        case (Inl e)
        with two have "set_item st3 ng (fst d) (snd d) p = Inl e" by simp
        with run cg cd look Some old st3(1) have "st' = st3" "res = Inl e"
          by (simp_all add: apply_move_store_def)
        with Some old g1 Inl rd3 show ?thesis by (simp add: apply_move_def)
      next
        case g2: (Inr g2)
        with two obtain st4 where st4: "set_item st3 ng (fst d) (snd d) p = Inr st4"
          "copied st4 self ?g ?n ng ?k g2" "dict_objs st4 = dict_objs st3"
          by auto
        let ?st = "st4\<lparr>dict_objs := (dict_objs st4)[np := AList.update p d (dict_objs st4 ! np)]\<rparr>"
        let ?ob = "\<lparr>grid_ref = ng, pieces_ref = np, targets_ref = targets_ref self,
                    obj_width = obj_width self, obj_height = obj_height self\<rparr>"
        from run cg cd look Some old st3(1) st4(1) have res: "st' = ?st" "res = Inr ?ob"
          by (simp_all add: apply_move_store_def)
        from st4(2) have rd4: "read_game st4 self = ?g"
          and fresh: "map ((!) (row_objs st4)) (list_objs st4 ! ng) = g2"
          by (simp_all add: copied_def)
        from below have keep: "read_game ?st self = read_game st4 self"
          by (simp add: read_game_def)
        from rd4 have "targets (read_game st4 self) = targets ?g"
          "width (read_game st4 self) = width ?g" "height (read_game st4 self) = height ?g"
          by simp_all
        then have fields: "dict_objs st4 ! targets_ref self = targets ?g"
          "obj_width self = width ?g" "obj_height self = height ?g"
          by (simp_all add: read_game_def)
        from st4(3) st3(3) cc(3,4) have np: "np < length (dict_objs st4)"
          "dict_objs st4 ! np = pieces ?g"
          by simp_all
        have new: "read_game ?st ?ob
                   = \<lparr>grid = g2, pieces = AList.update p d (pieces ?g), targets = targets ?g,
                      width = width ?g, height = height ?g\<rparr>"
        proof -
          have e1: "read_game ?st ?ob
                = \<lparr>grid = map ((!) (row_objs st4)) (list_objs st4 ! ng),
                   pieces = (dict_objs st4)[np := AList.update p d (dict_objs st4 ! np)] ! np,
                   targets = (dict_objs st4)[np := AList.update p d (dict_objs st4 ! np)]
                               ! targets_ref self,
                   width = obj_width self, height = obj_height self\<rparr>"
            by (simp add: read_game_def)
          have e2: "(dict_objs st4)[np := AList.update p d (dict_objs st4 ! np)] ! np
                     = AList.update p d (pieces ?g)"
            using np by simp
          have e3: "(dict_objs st4)[np := AList.update p d (dict_objs st4 ! np)]
                      ! targets_ref self = targets ?g"
            using below fields(1) by simp
          show ?thesis
            by (subst e1) (simp only: e2 e3 fresh fields(2,3))
        qed
        have "apply_move ?g p d
              = Inr \<lparr>grid = g2, pieces = AList.update p d (pieces ?g), targets = targets ?g,
                      width = width ?g, height = height ?g\<rparr>"
          using Some old g1 g2 by (simp add: apply_move_def)
        with new keep rd4 res show ?thesis by simp
      qed
    qed
  qed
qed

section \<open>One piece changes (C9)\<close>

text \<open>
  C9 as stated fails for a destination that is an obstacle cell or lies outside the grid:
  on the level \<open>A X\<close>, moving \<open>A\<close> to the obstacle cell \<open>(0, 1)\<close> returns a state whose grid
  has lost the obstacle, and moving it to \<open>(0, 5)\<close> raises \<open>IndexError\<close>.
\<close>

theorem apply_move_onto_obstacle_removes_it:
  "apply_move (parse_level ''A X'') ''A'' (0, 1)
     = Inr \<lparr>grid = [[''.'', ''A'']], pieces = [(''A'', (0, 1))], targets = [],
            width = 2, height = 1\<rparr>
   \<and> obstacles (parse_level ''A X'') = [(0, 1)]
   \<and> obstacles \<lparr>grid = [[''.'', ''A'']], pieces = [(''A'', (0, 1))], targets = [],
                 width = 2, height = 1\<rparr> = []
   \<and> apply_move (parse_level ''A X'') ''A'' (0, 5) = Inl IndexError"
  by code_simp

text \<open>
  C9, amended.  On a well-formed state, for a piece that is present and a destination
  inside the grid that is not an obstacle cell, \<open>apply_move\<close> returns a state in which
  that piece is at the destination and every other piece, the targets, the width, the
  height and the obstacle cells are as before.  It raises \<open>KeyError\<close> when the piece is not
  present.  Run on the object store, it allocates the new grid and the new pieces dict
  and leaves the state it was called on as it was, whatever it returns or raises.
\<close>

theorem apply_move_changes_one_piece:
  "(valid_state g \<and> (piece_char, start) \<in> set (pieces g) \<and> in_grid g new_pos
      \<and> new_pos \<notin> set (obstacles g) \<longrightarrow>
      (\<exists>g'. apply_move g piece_char new_pos = Inr g'
         \<and> map_of (pieces g') piece_char = Some new_pos
         \<and> (\<forall>q. q \<noteq> piece_char \<longrightarrow> map_of (pieces g') q = map_of (pieces g) q)
         \<and> targets g' = targets g \<and> width g' = width g \<and> height g' = height g
         \<and> obstacles g' = obstacles g))
   \<and> (piece_char \<notin> fst ` set (pieces g) \<longrightarrow> apply_move g piece_char new_pos = Inl KeyError)
   \<and> (refs_ok st self \<and> apply_move_store st self piece_char new_pos = (st', res) \<longrightarrow>
        read_game st' self = read_game st self
        \<and> (case res of
              Inl e \<Rightarrow> apply_move (read_game st self) piece_char new_pos = Inl e
            | Inr ob \<Rightarrow> apply_move (read_game st self) piece_char new_pos
                        = Inr (read_game st' ob)))"
  using apply_move_frame [of g piece_char start new_pos]
    apply_move_absent [of piece_char g new_pos]
    apply_move_store_refines [of st self piece_char new_pos st' res]
  by blast

theorem apply_move_changes_one_piece_witness:
  "(\<exists>g'. apply_move (parse_level ''A . B;a . b'') ''A'' (0, 1) = Inr g'
         \<and> map_of (pieces g') ''A'' = Some (0, 1)
         \<and> (\<forall>q. q \<noteq> ''A'' \<longrightarrow> map_of (pieces g') q = map_of (pieces (parse_level ''A . B;a . b'')) q)
         \<and> targets g' = targets (parse_level ''A . B;a . b'')
         \<and> width g' = width (parse_level ''A . B;a . b'')
         \<and> height g' = height (parse_level ''A . B;a . b'')
         \<and> obstacles g' = obstacles (parse_level ''A . B;a . b''))
   \<and> apply_move (parse_level ''A . B;a . b'') ''C'' (0, 1) = Inl KeyError
   \<and> read_game
        \<lparr>row_objs = [[''A'', ''.''], [''.'', ''A'']], list_objs = [[0], [1]],
         dict_objs = [[(''A'', (0, 0))], [], [(''A'', (0, 1))]]\<rparr>
        \<lparr>grid_ref = 0, pieces_ref = 0, targets_ref = 1, obj_width = 2, obj_height = 1\<rparr>
      = read_game
        \<lparr>row_objs = [[''A'', ''.'']], list_objs = [[0]], dict_objs = [[(''A'', (0, 0))], []]\<rparr>
        \<lparr>grid_ref = 0, pieces_ref = 0, targets_ref = 1, obj_width = 2, obj_height = 1\<rparr>"
proof -
  let ?g = "parse_level ''A . B;a . b''"
  let ?st = "\<lparr>row_objs = [[''A'', ''.'']], list_objs = [[0]],
               dict_objs = [[(''A'', (0, 0))], []]\<rparr>"
  let ?self = "\<lparr>grid_ref = 0, pieces_ref = 0, targets_ref = 1, obj_width = 2, obj_height = 1\<rparr>"
  let ?st' = "\<lparr>row_objs = [[''A'', ''.''], [''.'', ''A'']], list_objs = [[0], [1]],
         dict_objs = [[(''A'', (0, 0))], [], [(''A'', (0, 1))]]\<rparr>"
  let ?ob = "\<lparr>grid_ref = 1, pieces_ref = 2, targets_ref = 1, obj_width = 2, obj_height = 1\<rparr>"
  have v: "valid_state ?g" by (rule parse_level_valid)
  have a: "(''A'', (0, 0)) \<in> set (pieces ?g)" by code_simp
  have i: "in_grid ?g (0, 1)" by code_simp
  have o: "(0, 1) \<notin> set (obstacles ?g)" by code_simp
  have c: "''C'' \<notin> fst ` set (pieces ?g)" by code_simp
  have ok: "refs_ok ?st ?self" by code_simp
  have run: "apply_move_store ?st ?self ''A'' (0, 1) = (?st', Inr ?ob)" by code_simp
  from apply_move_changes_one_piece [of ?g "''A''" "(0, 0)" "(0, 1)"] v a i o
  have one: "\<exists>g'. apply_move ?g ''A'' (0, 1) = Inr g'
         \<and> map_of (pieces g') ''A'' = Some (0, 1)
         \<and> (\<forall>q. q \<noteq> ''A'' \<longrightarrow> map_of (pieces g') q = map_of (pieces ?g) q)
         \<and> targets g' = targets ?g \<and> width g' = width ?g \<and> height g' = height ?g
         \<and> obstacles g' = obstacles ?g"
    by blast
  from apply_move_changes_one_piece [of ?g "''C''" _ "(0, 1)"] c
  have two: "apply_move ?g ''C'' (0, 1) = Inl KeyError"
    by blast
  from apply_move_changes_one_piece [where st = ?st and self = ?self and piece_char = "''A''"
      and new_pos = "(0, 1)" and st' = ?st' and res = "Inr ?ob"] ok run
  have three: "read_game ?st' ?self = read_game ?st ?self"
    by blast
  from one two three show ?thesis by (intro conjI)
qed

section \<open>Malformed and illegal moves, and the exception of the verifier (C6)\<close>

lemma py_strip_empty_iff: "py_strip s = [] \<longleftrightarrow> (\<forall>ch \<in> set s. is_space ch)"
proof
  assume "\<forall>ch \<in> set s. is_space ch"
  then show "py_strip s = []" by (rule py_strip_blank)
next
  assume e: "py_strip s = []"
  have "dropWhile is_space s = []"
  proof (rule ccontr)
    assume ne: "dropWhile is_space s \<noteq> []"
    then have "\<not> is_space (hd (dropWhile is_space s))" by (rule hd_dropWhile)
    moreover from e have "\<forall>ch \<in> set (dropWhile is_space s). is_space ch"
      by (simp add: py_strip_def)
    ultimately show False using ne by (simp add: hd_in_set)
  qed
  then show "\<forall>ch \<in> set s. is_space ch" by simp
qed

text \<open>A fragment of the solution text is bad when it is not blank and does not split
  into exactly two tokens, or its second token in lower case is not a direction.  The
  moves of a solution text are read off its fragments that are not blank; \<open>after_moves\<close>
  is the state the replay loop has reached after a list of moves, if it has not failed.\<close>

definition bad_fragment :: "string \<Rightarrow> bool" where
  "bad_fragment f \<longleftrightarrow>
     py_strip f \<noteq> []
     \<and> (length (py_split_ws (py_strip f)) \<noteq> 2
        \<or> py_lower (py_split_ws (py_strip f) ! 1) \<notin> set [''up'', ''down'', ''left'', ''right''])"

definition fragment_move :: "string \<Rightarrow> string \<times> string" where
  "fragment_move f = (py_split_ws (py_strip f) ! 0, py_lower (py_split_ws (py_strip f) ! 1))"

definition solution_moves :: "string \<Rightarrow> (string \<times> string) list" where
  "solution_moves solution_string =
     map fragment_move (filter (\<lambda>f. py_strip f \<noteq> []) (py_split_on (CHR '';'') solution_string))"

fun after_moves :: "game \<Rightarrow> (string \<times> string) list \<Rightarrow> game option" where
  "after_moves g [] = Some g"
| "after_moves g ((sol_piece_char, sol_direction_name) # rest) =
     (if sol_piece_char \<notin> fst ` set (pieces g) then None
      else (case get_possible_moves g of
              Inl e \<Rightarrow> None
            | Inr possible_moves \<Rightarrow>
                (case find_move g sol_piece_char sol_direction_name possible_moves of
                   None \<Rightarrow> None
                 | Some (pm_piece, pm_new_pos, pm_direction) \<Rightarrow>
                     (case apply_move g pm_piece pm_new_pos of
                        Inl e \<Rightarrow> None
                      | Inr next_state \<Rightarrow> after_moves next_state rest))))"

lemma parse_moves_bad:
  "\<exists>f \<in> set frags. bad_fragment f \<Longrightarrow> move_idx + length frags = n \<Longrightarrow>
     parse_moves g n move_idx frags acc = Inl False"
proof (induction frags arbitrary: move_idx acc)
  case Nil
  then show ?case by simp
next
  case (Cons f rest)
  show ?case
  proof (cases "bad_fragment f")
    case True
    then show ?thesis by (auto simp: bad_fragment_def Let_def)
  next
    case False
    with Cons.prems have bad: "\<exists>f \<in> set rest. bad_fragment f" by simp
    then have "rest \<noteq> []" by auto
    with Cons.prems have idx: "int move_idx \<noteq> int n - 1" "move_idx + 1 + length rest = n"
      by (cases rest; simp)+
    from Cons.IH [OF bad idx(2)] have "\<And>acc. parse_moves g n (move_idx + 1) rest acc = Inl False" .
    with False idx(1) show ?thesis
      by (auto simp: bad_fragment_def Let_def)
  qed
qed

lemma parse_moves_good:
  "\<forall>f \<in> set frags. \<not> bad_fragment f \<Longrightarrow> move_idx + length frags = n \<Longrightarrow>
     acc \<noteq> [] \<or> (\<exists>f \<in> set frags. py_strip f \<noteq> []) \<Longrightarrow>
     parse_moves g n move_idx frags acc
       = Inr (acc @ map fragment_move (filter (\<lambda>f. py_strip f \<noteq> []) frags))"
proof (induction frags arbitrary: move_idx acc)
  case Nil
  then show ?case by simp
next
  case (Cons f rest)
  from Cons.prems have idx: "move_idx + 1 + length rest = n" by simp
  from Cons.prems have good: "\<forall>f \<in> set rest. \<not> bad_fragment f" "\<not> bad_fragment f" by simp_all
  show ?case
  proof (cases "py_strip f = []")
    case True
    with Cons.prems have more: "acc \<noteq> [] \<or> (\<exists>f \<in> set rest. py_strip f \<noteq> [])" by auto
    have "\<not> (int move_idx = int n - 1 \<and> acc = [])"
    proof
      assume a: "int move_idx = int n - 1 \<and> acc = []"
      with idx have "length rest = 0" by linarith
      with more a show False by simp
    qed
    with True Cons.IH [OF good(1) idx more] show ?thesis by auto
  next
    case False
    with good(2) have ok: "length (py_split_ws (py_strip f)) = 2"
      "py_lower (py_split_ws (py_strip f) ! 1) \<in> set [''up'', ''down'', ''left'', ''right'']"
      by (auto simp: bad_fragment_def)
    have "parse_moves g n (move_idx + 1) rest (acc @ [fragment_move f])
          = Inr ((acc @ [fragment_move f]) @ map fragment_move (filter (\<lambda>f. py_strip f \<noteq> []) rest))"
      by (rule Cons.IH [OF good(1) idx]) simp
    with False ok show ?thesis
      by (simp add: Let_def fragment_move_def)
  qed
qed

lemma fragment_not_blank:
  assumes "f \<in> set (py_split_on sep s)" "py_strip f \<noteq> []"
  shows "py_strip s \<noteq> []"
proof -
  from assms(2) obtain ch where "ch \<in> set f" "\<not> is_space ch"
    by (auto simp: py_strip_empty_iff)
  with py_split_on_chars [OF assms(1)] show ?thesis
    by (auto simp: py_strip_empty_iff)
qed

lemma verify_bad_fragment:
  assumes "\<exists>f \<in> set (py_split_on (CHR '';'') solution). bad_fragment f"
  shows "verify_kuboble_solution encodes level solution = Inr False"
proof -
  from assms obtain f where f: "f \<in> set (py_split_on (CHR '';'') solution)" "py_strip f \<noteq> []"
    by (auto simp: bad_fragment_def)
  from fragment_not_blank [OF f] have ne: "py_strip solution \<noteq> []" "solution \<noteq> []"
    by (auto simp: py_strip_def)
  have "parse_moves (parse_level level) (length (py_split_on (CHR '';'') solution)) 0
          (py_split_on (CHR '';'') solution) [] = Inl False"
    using assms by (rule parse_moves_bad) simp
  with ne show ?thesis by (simp add: verify_kuboble_solution_def Let_def)
qed

lemma verify_replay:
  assumes "\<forall>f \<in> set (py_split_on (CHR '';'') solution). \<not> bad_fragment f"
    and "solution_moves solution \<noteq> []"
  shows "verify_kuboble_solution encodes level solution
         = replay encodes (level = test_20_level) (parse_level level) (solution_moves solution)"
proof -
  from assms(2) obtain f where f: "f \<in> set (py_split_on (CHR '';'') solution)" "py_strip f \<noteq> []"
    by (auto simp: solution_moves_def filter_empty_conv)
  from fragment_not_blank [OF f] have ne: "py_strip solution \<noteq> []" "solution \<noteq> []"
    by (auto simp: py_strip_def)
  have "parse_moves (parse_level level) (length (py_split_on (CHR '';'') solution)) 0
          (py_split_on (CHR '';'') solution) [] = Inr ([] @ solution_moves solution)"
    unfolding solution_moves_def using assms(1) f by (intro parse_moves_good) auto
  with ne assms(2) show ?thesis by (simp add: verify_kuboble_solution_def Let_def)
qed

lemma replay_after:
  "after_moves g pre = Some g' \<Longrightarrow>
     replay encodes False g (pre @ rest) = replay encodes False g' rest"
proof (induction pre arbitrary: g)
  case Nil
  then show ?case by simp
next
  case (Cons m pre)
  obtain p d where m: "m = (p, d)" by (cases m)
  from Cons.prems m show ?case
    by (auto simp: Cons.IH split: if_splits sum.splits option.splits)
qed

lemma verify_total:
  assumes "level \<noteq> test_20_level"
  shows "\<exists>b. verify_kuboble_solution encodes level solution = Inr b"
proof -
  from replay_total [OF parse_level_valid] have
    "\<And>ms. \<exists>b. replay encodes False (parse_level level) ms = Inr b" .
  with assms show ?thesis
    by (auto simp: verify_kuboble_solution_def Let_def split: sum.splits)
qed

text \<open>
  On every level text other than that of test 20, \<open>verify_kuboble_solution\<close> returns a
  boolean for every solution text.  On every level text it returns false when some
  fragment of the solution is bad (not two tokens, or a direction that is not up, down,
  left or right, compared in lower case).  On a level other than that of test 20 whose
  fragments are well formed, it returns false as soon as the replay meets a move whose
  piece is absent from the state reached, or for which the possible moves of that state
  hold no entry of that piece and direction with a changed position, whatever moves
  follow.
\<close>

lemma verify_rejects_bad_moves:
  "(level \<noteq> test_20_level \<longrightarrow> (\<exists>b. verify_kuboble_solution encodes level solution = Inr b))
   \<and> ((\<exists>f \<in> set (py_split_on (CHR '';'') solution). bad_fragment f) \<longrightarrow>
        verify_kuboble_solution encodes level solution = Inr False)
   \<and> (level \<noteq> test_20_level
        \<and> (\<forall>f \<in> set (py_split_on (CHR '';'') solution). \<not> bad_fragment f)
        \<and> solution_moves solution = pre @ (piece_char, dname) # rest
        \<and> after_moves (parse_level level) pre = Some g
        \<and> (piece_char \<notin> fst ` set (pieces g)
           \<or> (\<exists>pms. get_possible_moves g = Inr pms
                 \<and> \<not> (\<exists>(pm_piece, pm_new_pos, pm_direction) \<in> set pms.
                         pm_piece = piece_char \<and> pm_direction = dname
                         \<and> map_of (pieces g) pm_piece \<noteq> Some pm_new_pos)))
        \<longrightarrow> verify_kuboble_solution encodes level solution = Inr False)"
proof (intro conjI impI)
  assume "level \<noteq> test_20_level"
  then show "\<exists>b. verify_kuboble_solution encodes level solution = Inr b"
    by (rule verify_total)
next
  assume "\<exists>f \<in> set (py_split_on (CHR '';'') solution). bad_fragment f"
  then show "verify_kuboble_solution encodes level solution = Inr False"
    by (rule verify_bad_fragment)
next
  assume a: "level \<noteq> test_20_level
        \<and> (\<forall>f \<in> set (py_split_on (CHR '';'') solution). \<not> bad_fragment f)
        \<and> solution_moves solution = pre @ (piece_char, dname) # rest
        \<and> after_moves (parse_level level) pre = Some g
        \<and> (piece_char \<notin> fst ` set (pieces g)
           \<or> (\<exists>pms. get_possible_moves g = Inr pms
                 \<and> \<not> (\<exists>(pm_piece, pm_new_pos, pm_direction) \<in> set pms.
                         pm_piece = piece_char \<and> pm_direction = dname
                         \<and> map_of (pieces g) pm_piece \<noteq> Some pm_new_pos)))"
  then have "verify_kuboble_solution encodes level solution
             = replay encodes False (parse_level level) (pre @ (piece_char, dname) # rest)"
    using verify_replay [of solution encodes level] by simp
  also from a have "\<dots> = replay encodes False g ((piece_char, dname) # rest)"
    by (simp add: replay_after)
  also have "\<dots> = Inr False"
  proof (cases "piece_char \<in> fst ` set (pieces g)")
    case False
    then show ?thesis by simp
  next
    case True
    with a obtain pms where pms: "get_possible_moves g = Inr pms"
      "\<not> (\<exists>(pm_piece, pm_new_pos, pm_direction) \<in> set pms.
                         pm_piece = piece_char \<and> pm_direction = dname
                         \<and> map_of (pieces g) pm_piece \<noteq> Some pm_new_pos)"
      by blast
    from pms(2) have "find_move g piece_char dname pms = None"
      unfolding find_move_def find_None_iff by blast
    with True pms(1) show ?thesis by simp
  qed
  finally show "verify_kuboble_solution encodes level solution = Inr False" .
qed

lemma verify_rejects_bad_moves_examples:
  "verify_kuboble_solution ascii_stdout ''A . ;. a'' ''A up down'' = Inr False
   \<and> verify_kuboble_solution ascii_stdout ''A . ;. a'' ''A down; A diagonal'' = Inr False
   \<and> verify_kuboble_solution ascii_stdout ''A . ;. a'' ''C down; A down'' = Inr False
   \<and> verify_kuboble_solution ascii_stdout ''A . ;. a'' ''A down; A down; A right'' = Inr False"
  by code_simp

text \<open>
  C6.  \<open>verify_kuboble_solution\<close> should never raise.  On the level of test 20 it does:
  the replay loop prints, after the first move it applies, a line whose text has Thai
  letters (line 235), and \<open>print\<close> raises \<open>UnicodeEncodeError\<close> when the encoding of standard
  output is ASCII.  The solution \<open>B down\<close> is a legal move that does not win, for which
  the verifier returns false when standard output can encode the line.  On the same
  level with the same standard output, a move whose piece is absent and whose name is
  not ASCII (here the letter of code point 233) raises at line 205 and is not answered
  with false.
\<close>

theorem verifier_raises_on_test_20_level:
  "verify_kuboble_solution ascii_stdout ''A B . ;X . . ;b a .'' ''B down''
     = Inl UnicodeEncodeError
   \<and> verify_kuboble_solution utf8_stdout ''A B . ;X . . ;b a .'' ''B down'' = Inr False
   \<and> [CHR 0xE9] \<notin> fst ` set (pieces (parse_level ''A B . ;X . . ;b a .''))
   \<and> verify_kuboble_solution ascii_stdout ''A B . ;X . . ;b a .'' (CHR 0xE9 # '' down'')
     = Inl UnicodeEncodeError"
  by code_simp

section \<open>The visited key determines a reachable state\<close>







section \<open>Breadth-first search finds a shortest solution (C3)\<close>


definition moves_to :: "game \<Rightarrow> game \<Rightarrow> bool" where
  "moves_to g g' \<longleftrightarrow>
     (\<exists>ms p cell dname. get_possible_moves g = Inr ms \<and> (p, cell, dname) \<in> set ms
        \<and> apply_move g p cell = Inr g')"

text \<open>\<open>unwon g0 n g\<close>: \<open>g\<close> is reached from \<open>g0\<close> by \<open>n\<close> moves through states that are not
  won, \<open>g0\<close> and \<open>g\<close> included.\<close>

inductive unwon :: "game \<Rightarrow> nat \<Rightarrow> game \<Rightarrow> bool" for g0 :: game where
  first: "\<not> is_win g0 \<Longrightarrow> unwon g0 0 g0"
| more: "unwon g0 n g \<Longrightarrow> moves_to g g' \<Longrightarrow> \<not> is_win g' \<Longrightarrow> unwon g0 (Suc n) g'"


lemma unwon_reachable: "unwon g0 n g \<Longrightarrow> reachable g0 g"
proof (induction rule: unwon.induct)
  case first
  show ?case by (rule reachable.start)
next
  case (more n g g')
  from more.hyps(2) obtain ms p cell dname where
    "get_possible_moves g = Inr ms" "(p, cell, dname) \<in> set ms" "apply_move g p cell = Inr g'"
    unfolding moves_to_def by blast
  with more.IH show ?case by (rule reachable.step)
qed




















subsection \<open>One iteration of the loop keeps the layers\<close>






text \<open>The text of a move in a solution (line 68), and the queue entries whose path is the
  text of a sequence of possible moves that leads from the start state to their state.\<close>

definition move_str :: "move \<Rightarrow> string" where
  "move_str m = (case m of (piece_char, new_pos, dname) \<Rightarrow> piece_char @ '' '' @ dname)"















end
